theory Spec2Isabelle
  imports Complex_Main "HOL-Library.Char_ord" "HOL-Library.List_Lexorder"
begin

section \<open>Conventions of the embedding\<close>

text \<open>
  The engine of \<^verbatim>\<open>src/index.js\<close> is embedded function by function.  Identifiers
  (products, entities, rules, periods, currencies) are strings, as in the source.  A JavaScript
  number is represented by an exact rational: rounding, \<^verbatim>\<open>NaN\<close> and the infinities of
  IEEE arithmetic are outside the model.  A JavaScript \<^verbatim>\<open>Set\<close> is a list without
  repetitions in insertion order, a \<^verbatim>\<open>Map\<close> that is only looked up is a partial function, and a
  \<^verbatim>\<open>Map\<close> or object that is iterated is an association list in insertion order.  A thrown
  \<^verbatim>\<open>Error\<close> is the left summand of a result.
\<close>

datatype error =
    CycleDetected
  | CircularReference string
  | NoExchangeRate string
  | MissingExchangeRate string string
  | TypeError
  | BomContainsCycles "string list list"
  | RuleDependenciesContainCycles "string list list"

definition set_add :: "'a \<Rightarrow> 'a list \<Rightarrow> 'a list" where
  \<comment> \<open>\<^verbatim>\<open>Set.prototype.add\<close>: a new element goes to the end, a present one stays where it is.\<close>
  "set_add x xs = (if x \<in> set xs then xs else xs @ [x])"

section \<open>The directed graph\<close>

text \<open>
  \<^verbatim>\<open>Graph.adjacencyList\<close> is a \<^verbatim>\<open>Map\<close> from a node to the array of its outgoing edges,
  iterated by \<^verbatim>\<open>getNodes\<close>: an association list in insertion order.  An edge
  \<^verbatim>\<open>{ node: to, ...metadata }\<close> is the pair of its target and its metadata.
  \<open>map_set\<close> is \<^verbatim>\<open>Map.prototype.set\<close>: the value of a present key is replaced in place, a new
  key goes to the end.
\<close>

primrec map_set :: "'k \<Rightarrow> 'v \<Rightarrow> ('k \<times> 'v) list \<Rightarrow> ('k \<times> 'v) list" where
  "map_set k v [] = [(k, v)]"
| "map_set k v (p # ps) = (if fst p = k then (k, v) # ps else p # map_set k v ps)"

definition map_has :: "('k \<times> 'v) list \<Rightarrow> 'k \<Rightarrow> bool" where
  "map_has m k = (k \<in> fst ` set m)"

type_synonym ('n, 'm) edge = "'n \<times> 'm"
type_synonym ('n, 'm) graph = "('n \<times> ('n, 'm) edge list) list"

definition new_Graph :: "('n, 'm) graph" where
  "new_Graph = []"

definition addNode :: "'n \<Rightarrow> ('n, 'm) graph \<Rightarrow> ('n, 'm) graph" where
  "addNode node g = (if \<not> map_has g node then map_set node [] g else g)"

definition getNeighbors :: "('n, 'm) graph \<Rightarrow> 'n \<Rightarrow> ('n, 'm) edge list" where
  "getNeighbors g node = (case map_of g node of None \<Rightarrow> [] | Some es \<Rightarrow> es)"

definition addEdge :: "'n \<Rightarrow> 'n \<Rightarrow> 'm \<Rightarrow> ('n, 'm) graph \<Rightarrow> ('n, 'm) graph" where
  "addEdge from to metadata g =
     (let g1 = addNode from g; g2 = addNode to g1
      in map_set from (getNeighbors g2 from @ [(to, metadata)]) g2)"

definition getNodes :: "('n, 'm) graph \<Rightarrow> 'n list" where
  "getNodes g = map fst g"

text \<open>
  \<^verbatim>\<open>findAllPaths\<close>.  A path is the array of its steps \<^verbatim>\<open>{ node, edge }\<close>, the first one
  with \<^verbatim>\<open>edge: null\<close>.  The source pushes the step and adds the node to \<^verbatim>\<open>visited\<close> before
  the recursive call and undoes both after it; the embedding passes the extended path and set
  to the call and goes on with its own.  \<^verbatim>\<open>paths\<close> collects the results in the order of
  the search.
\<close>

type_synonym ('n, 'm) step = "'n \<times> ('n, 'm) edge option"

function findAllPaths_dfs ::
  "('n, 'm) graph \<Rightarrow> 'n \<Rightarrow> nat \<Rightarrow> 'n \<Rightarrow> ('n, 'm) step list \<Rightarrow> 'n set \<Rightarrow> ('n, 'm) step list list" where
  "findAllPaths_dfs g end maxDepth current path visited =
     (if length path > maxDepth then []
      else if current = end then [path]
      else concat (map (\<lambda>edge.
             if fst edge \<notin> visited
             then findAllPaths_dfs g end maxDepth (fst edge) (path @ [(fst edge, Some edge)])
                    (insert (fst edge) visited)
             else [])
           (getNeighbors g current)))"
  by pat_completeness auto
termination
  by (relation "measure (\<lambda>(g, e, maxDepth, current, path, visited). Suc maxDepth - length path)") auto

declare findAllPaths_dfs.simps [simp del]

definition findAllPaths :: "('n, 'm) graph \<Rightarrow> 'n \<Rightarrow> 'n \<Rightarrow> nat \<Rightarrow> ('n, 'm) step list list" where
  "findAllPaths g start end maxDepth = findAllPaths_dfs g end maxDepth start [(start, None)] {start}"

text \<open>
  The paths the search is specified to find: \<open>simple_path g start end p\<close> holds when \<open>p\<close>
  starts at \<open>start\<close> with no edge, every later step follows an edge of \<open>g\<close> out of the node before
  it, no node occurs twice, and the last node is \<open>end\<close>.  \<open>hops p\<close> is the number of edges of \<open>p\<close>.
\<close>

fun valid_steps :: "('n, 'm) graph \<Rightarrow> 'n \<Rightarrow> ('n, 'm) step list \<Rightarrow> bool" where
  "valid_steps g u [] = True"
| "valid_steps g u ((v, e) # rest) =
     (case e of None \<Rightarrow> False
      | Some edge \<Rightarrow> edge \<in> set (getNeighbors g u) \<and> fst edge = v \<and> valid_steps g v rest)"

definition simple_path :: "('n, 'm) graph \<Rightarrow> 'n \<Rightarrow> 'n \<Rightarrow> ('n, 'm) step list \<Rightarrow> bool" where
  "simple_path g start end p =
     (case p of [] \<Rightarrow> False
      | (n, e) # rest \<Rightarrow> n = start \<and> e = None \<and> valid_steps g start rest
          \<and> distinct (map fst p) \<and> fst (last p) = end)"

definition hops :: "('n, 'm) step list \<Rightarrow> nat" where
  "hops p = length p - 1"


text \<open>
  \<^verbatim>\<open>topologicalSort\<close> (Kahn).  \<open>count_inDegree\<close> is the two counting loops: every node gets
  in-degree 0, then every edge adds one to its target.  \<open>release\<close> is the body of the loop over
  the neighbours of the dequeued node: the in-degree of the neighbour goes down by one and the
  neighbour is enqueued when it reaches 0.  A neighbour without an entry cannot occur there
  (the counting loop has entered every neighbour of every node); JavaScript would store
  \<^verbatim>\<open>NaN\<close> for it, which is never \<^verbatim>\<open>=== 0\<close>, so that case leaves the state as it is.
  \<open>pending\<close> bounds the iterations that are left: the queue and the entries that are still
  positive.
\<close>

definition count_inDegree :: "('n, 'm) graph \<Rightarrow> ('n \<times> int) list" where
  "count_inDegree g =
     fold (\<lambda>node inDegree.
             fold (\<lambda>edge inDegree.
                     map_set (fst edge)
                       ((case map_of inDegree (fst edge) of None \<Rightarrow> 0 | Some d \<Rightarrow> d) + 1) inDegree)
                  (getNeighbors g node) inDegree)
          (getNodes g)
          (fold (\<lambda>node inDegree. map_set node 0 inDegree) (getNodes g) [])"

definition release :: "('n \<times> int) list \<times> 'n list \<Rightarrow> 'n \<Rightarrow> ('n \<times> int) list \<times> 'n list" where
  "release s neighbor =
     (case map_of (fst s) neighbor of
        None \<Rightarrow> s
      | Some d \<Rightarrow> (map_set neighbor (d - 1) (fst s),
                   if d - 1 = 0 then snd s @ [neighbor] else snd s))"

definition pending :: "('n \<times> int) list \<times> 'n list \<Rightarrow> nat" where
  "pending s = length (snd s) + length (filter (\<lambda>p. 0 < snd p) (fst s))"

lemma positive_map_set:
  "map_of m k = Some d \<Longrightarrow>
   length (filter (\<lambda>p. 0 < snd p) (map_set k d' m)) + (if 0 < d then 1 else 0)
     = length (filter (\<lambda>p. 0 < snd p) m) + (if 0 < (d'::int) then 1 else 0)"
  by (induction m) (auto split: if_splits)

lemma pending_release: "pending (release s nb) \<le> pending s"
proof (cases "map_of (fst s) nb")
  case None
  then show ?thesis by (simp add: release_def)
next
  case (Some d)
  show ?thesis
  proof (cases "d = 1")
    case True
    with positive_map_set[OF Some, of 0] show ?thesis
      by (simp add: release_def Some pending_def)
  next
    case False
    with positive_map_set[OF Some, of "d - 1"] show ?thesis
      by (auto simp: release_def Some pending_def split: if_splits)
  qed
qed

lemma pending_fold_release: "pending (fold (\<lambda>nb s. release s nb) nbs s) \<le> pending s"
proof (induction nbs arbitrary: s)
  case Nil
  then show ?case by simp
next
  case (Cons nb nbs)
  have "pending (fold (\<lambda>nb s. release s nb) nbs (release s nb)) \<le> pending (release s nb)"
    by (rule Cons.IH)
  also have "\<dots> \<le> pending s" by (rule pending_release)
  finally show ?case by simp
qed

function kahn_loop ::
  "('n, 'm) graph \<Rightarrow> ('n \<times> int) list \<Rightarrow> 'n list \<Rightarrow> 'n list \<Rightarrow> 'n list" where
  "kahn_loop g inDegree queue result =
     (case queue of
        [] \<Rightarrow> result
      | node # rest \<Rightarrow>
          (let s = fold (\<lambda>edge s. release s (fst edge)) (getNeighbors g node) (inDegree, rest)
           in kahn_loop g (fst s) (snd s) (result @ [node])))"
  by pat_completeness auto
termination
proof (relation "measure (\<lambda>(g, inDegree, queue, result). pending (inDegree, queue))", goal_cases)
  case 1
  show ?case by simp
next
  case (2 g inDegree queue result node rest s)
  have "fold (\<lambda>edge s. release s (fst edge)) (getNeighbors g node) (inDegree, rest)
        = fold (\<lambda>nb s. release s nb) (map fst (getNeighbors g node)) (inDegree, rest)"
    by (simp add: fold_map comp_def)
  then have "pending s \<le> pending (inDegree, rest)"
    using 2 pending_fold_release[of "map fst (getNeighbors g node)" "(inDegree, rest)"] by simp
  then show ?case using 2 by (simp add: pending_def)
qed

declare kahn_loop.simps [simp del]

definition topologicalSort :: "('n, 'm) graph \<Rightarrow> error + 'n list" where
  "topologicalSort g =
     (let inDegree = count_inDegree g;
          queue = map fst (filter (\<lambda>p. snd p = 0) inDegree);
          result = kahn_loop g inDegree queue []
      in if length result \<noteq> length (getNodes g) then Inl CycleDetected else Inr result)"

text \<open>
  The notions the claims about graphs are stated in.  \<open>edge_rel g\<close> is the set of the pairs
  \<open>(u, v)\<close> with an edge from \<open>u\<close> to \<open>v\<close>.  Every \<^verbatim>\<open>Graph\<close> object is well formed: the keys
  of a \<^verbatim>\<open>Map\<close> are distinct and \<^verbatim>\<open>addEdge\<close> adds both ends as nodes.  \<open>precedes u v xs\<close>
  holds when \<open>v\<close> occurs in \<open>xs\<close> after the first \<open>u\<close>.  A graph has no cycle when \<open>edge_rel g\<close>
  is \<open>acyclic\<close>.
\<close>

definition edge_pairs :: "('n, 'm) graph \<Rightarrow> ('n \<times> 'n) list" where
  "edge_pairs g = concat (map (\<lambda>entry. map (\<lambda>edge. (fst entry, fst edge)) (snd entry)) g)"

definition edge_rel :: "('n, 'm) graph \<Rightarrow> ('n \<times> 'n) set" where
  "edge_rel g = set (edge_pairs g)"

definition wf_graph :: "('n, 'm) graph \<Rightarrow> bool" where
  "wf_graph g = (distinct (map fst g) \<and> snd ` set (edge_pairs g) \<subseteq> set (getNodes g))"

definition precedes :: "'a \<Rightarrow> 'a \<Rightarrow> 'a list \<Rightarrow> bool" where
  "precedes u v xs = (u \<in> set xs \<and> v \<in> set (tl (dropWhile (\<lambda>x. x \<noteq> u) xs)))"


text \<open>
  \<^verbatim>\<open>detectCycles\<close>.  The inner function \<^verbatim>\<open>dfs(node, path)\<close> and its loop over the neighbours
  call each other; \<open>dfs_neighbors g nbs s\<close> is that loop over the neighbours \<open>nbs\<close> that are
  left, and \<open>detect_dfs\<close> is the call: colour the node gray and push it (\<open>enter\<close>), run the
  loop, pop and colour it black (\<open>leave\<close>).  The recursion is on the colours, not on the
  structure, so it is a partial function and its returning is proved with the claim.
  \<open>cycle_from\<close> is \<^verbatim>\<open>path.slice(path.indexOf(neighbor)).concat(neighbor)\<close>, where
  \<^verbatim>\<open>slice(-1)\<close> is the last element.  \<open>detect_roots\<close> is the loop over all nodes that starts a
  search, with a fresh path, at every node that is still white.
\<close>

datatype color = WHITE | GRAY | BLACK

record 'n dfs_state =
  dfs_color :: "'n \<rightharpoonup> color"
  dfs_path :: "'n list"
  dfs_cycles :: "'n list list"

definition cycle_from :: "'n list \<Rightarrow> 'n \<Rightarrow> 'n list" where
  "cycle_from p neighbor =
     (if neighbor \<in> set p then dropWhile (\<lambda>x. x \<noteq> neighbor) p
      else if p = [] then [] else [last p]) @ [neighbor]"

definition enter :: "'n \<Rightarrow> 'n dfs_state \<Rightarrow> 'n dfs_state" where
  "enter node s = s\<lparr>dfs_color := (dfs_color s)(node \<mapsto> GRAY), dfs_path := dfs_path s @ [node]\<rparr>"

definition leave :: "'n \<Rightarrow> 'n dfs_state \<Rightarrow> 'n dfs_state" where
  "leave node s = s\<lparr>dfs_path := butlast (dfs_path s), dfs_color := (dfs_color s)(node \<mapsto> BLACK)\<rparr>"

partial_function (option) dfs_neighbors ::
  "('n, 'm) graph \<Rightarrow> 'n list \<Rightarrow> 'n dfs_state \<Rightarrow> 'n dfs_state option" where
  "dfs_neighbors g nbs s =
     (case nbs of
        [] \<Rightarrow> Some s
      | neighbor # rest \<Rightarrow>
          if dfs_color s neighbor = Some GRAY
          then dfs_neighbors g rest
                 (s\<lparr>dfs_cycles := dfs_cycles s @ [cycle_from (dfs_path s) neighbor]\<rparr>)
          else if dfs_color s neighbor = Some WHITE
          then Option.bind
                 (dfs_neighbors g (map fst (getNeighbors g neighbor)) (enter neighbor s))
                 (\<lambda>s'. dfs_neighbors g rest (leave neighbor s'))
          else dfs_neighbors g rest s)"

declare dfs_neighbors.simps [code]

definition detect_dfs :: "('n, 'm) graph \<Rightarrow> 'n \<Rightarrow> 'n dfs_state \<Rightarrow> 'n dfs_state option" where
  "detect_dfs g node s =
     Option.bind (dfs_neighbors g (map fst (getNeighbors g node)) (enter node s))
       (\<lambda>s'. Some (leave node s'))"

fun detect_roots :: "('n, 'm) graph \<Rightarrow> 'n list \<Rightarrow> 'n dfs_state \<Rightarrow> 'n dfs_state option" where
  "detect_roots g [] s = Some s"
| "detect_roots g (node # rest) s =
     (if dfs_color s node = Some WHITE
      then Option.bind (detect_dfs g node (s\<lparr>dfs_path := []\<rparr>)) (detect_roots g rest)
      else detect_roots g rest s)"

definition detectCycles :: "('n, 'm) graph \<Rightarrow> 'n list list option" where
  "detectCycles g =
     map_option dfs_cycles
       (detect_roots g (getNodes g)
          \<lparr>dfs_color = fold (\<lambda>node c. c(node \<mapsto> WHITE)) (getNodes g) Map.empty,
           dfs_path = [], dfs_cycles = []\<rparr>)"


text \<open>
  What a cycle of the graph is, for the lists that \<^verbatim>\<open>detectCycles\<close> returns: a list of at
  least two nodes that ends at the node it starts from and follows an edge at every step.
\<close>

definition is_cycle :: "('n, 'm) graph \<Rightarrow> 'n list \<Rightarrow> bool" where
  "is_cycle g c =
     (2 \<le> length c \<and> hd c = last c \<and> successively (\<lambda>u v. (u, v) \<in> edge_rel g) c)"


section \<open>Cost records and the cost state\<close>

record component_cost =
  cc_itemId :: string
  cc_type :: string
  cc_quantity :: rat
  cc_scrapMultiplier :: rat
  cc_unitCost :: "rat option"
  cc_cost :: rat

record path_cost =
  pc_entity :: string
  pc_cost :: rat
  pc_markup :: "rat option"

record cost_record =
  directMaterial :: rat
  directLabor :: rat
  scrapAdjustment :: rat
  laborBurden :: rat
  factoryOverhead :: rat
  rndAmortization :: rat
  royalty :: rat
  managementFee :: rat
  interCompanyMarkup :: rat
  customsDuties :: rat
  totalCost :: rat
  componentBreakdown :: "component_cost list"
  sourceEntity :: "string option"
  transferPath :: "path_cost list option"
  key_of_record :: "string option"

record CostState =
  costs :: "string \<rightharpoonup> cost_record"
  ruleOutputs :: "string \<rightharpoonup> rat"
  dependencies :: "string \<rightharpoonup> string list"
  dirty :: "string list"

definition new_CostState :: CostState where
  "new_CostState = \<lparr>costs = Map.empty, ruleOutputs = Map.empty, dependencies = Map.empty, dirty = []\<rparr>"

definition getCostKey :: "string \<Rightarrow> string \<Rightarrow> string \<Rightarrow> string" where
  "getCostKey productId entityId period = productId @ '':'' @ entityId @ '':'' @ period"

definition getRuleKey :: "string \<Rightarrow> string \<Rightarrow> string \<Rightarrow> string \<Rightarrow> string" where
  "getRuleKey ruleId productId entityId period =
     ruleId @ '':'' @ productId @ '':'' @ entityId @ '':'' @ period"

definition setCost :: "string \<Rightarrow> string \<Rightarrow> string \<Rightarrow> cost_record \<Rightarrow> CostState \<Rightarrow> CostState" where
  "setCost productId entityId period breakdown st =
     (let key = getCostKey productId entityId period
      in st\<lparr>costs := (costs st)(key \<mapsto> breakdown\<lparr>key_of_record := Some key\<rparr>)\<rparr>)"

definition getCost :: "CostState \<Rightarrow> string \<Rightarrow> string \<Rightarrow> string \<Rightarrow> cost_record option" where
  "getCost st productId entityId period = costs st (getCostKey productId entityId period)"

definition setRuleOutput :: "string \<Rightarrow> string \<Rightarrow> string \<Rightarrow> string \<Rightarrow> rat \<Rightarrow> CostState \<Rightarrow> CostState" where
  "setRuleOutput ruleId productId entityId period output st =
     st\<lparr>ruleOutputs := (ruleOutputs st)(getRuleKey ruleId productId entityId period \<mapsto> output)\<rparr>"

definition addDependency :: "string \<Rightarrow> string \<Rightarrow> CostState \<Rightarrow> CostState" where
  "addDependency sourceKey dependentKey st =
     (let ds = (case dependencies st sourceKey of None \<Rightarrow> [] | Some xs \<Rightarrow> xs)
      in st\<lparr>dependencies := (dependencies st)(sourceKey \<mapsto> set_add dependentKey ds)\<rparr>)"

text \<open>
  \<^verbatim>\<open>markDirty\<close> calls itself for every registered dependent and has no guard against a
  cyclic registration, so it need not return: the value \<open>None\<close> stands for the call that
  does not.  \<open>markDirty_each st ks\<close> is the loop \<^verbatim>\<open>for (const dependent of ks) this.markDirty(dependent)\<close>.
\<close>

partial_function (option) markDirty_each :: "CostState \<Rightarrow> string list \<Rightarrow> CostState option" where
  "markDirty_each st ks =
     (case ks of
        [] \<Rightarrow> Some st
      | k # rest \<Rightarrow>
          Option.bind
            (markDirty_each (st\<lparr>dirty := set_add k (dirty st)\<rparr>)
               (case dependencies st k of None \<Rightarrow> [] | Some ds \<Rightarrow> ds))
            (\<lambda>st'. markDirty_each st' rest))"

declare markDirty_each.simps [code]

definition markDirty :: "string \<Rightarrow> CostState \<Rightarrow> CostState option" where
  "markDirty k st =
     markDirty_each (st\<lparr>dirty := set_add k (dirty st)\<rparr>)
       (case dependencies st k of None \<Rightarrow> [] | Some ds \<Rightarrow> ds)"

definition getDirtyKeys :: "CostState \<Rightarrow> string list" where
  "getDirtyKeys st = dirty st"

definition clearDirty :: "CostState \<Rightarrow> CostState" where
  "clearDirty st = st\<lparr>dirty := []\<rparr>"

section \<open>Periods and currency conversion\<close>

text \<open>
  A period is a label such as \<^verbatim>\<open>2024-Q4\<close>.  \<open>split_Q\<close> is \<^verbatim>\<open>period.split('-Q')\<close>.
  \<open>parseInt\<close> is JavaScript's on ASCII input: leading white space, a sign, an optional
  \<^verbatim>\<open>0x\<close> prefix, the longest prefix of digits, and \<^verbatim>\<open>NaN\<close> (here \<open>None\<close>) when there is no
  digit.  A missing second piece is \<^verbatim>\<open>parseInt(undefined)\<close>, also \<^verbatim>\<open>NaN\<close>.  Arithmetic with
  \<^verbatim>\<open>NaN\<close> gives \<^verbatim>\<open>NaN\<close> and every comparison with it is false (\<open>abs_diff\<close>, \<open>js_less\<close>).

  \<^verbatim>\<open>CurrencyConverter.rates\<close> is an object from period labels to objects from rate keys such
  as \<^verbatim>\<open>CNY/USD\<close> to rates.  A rate that is absent or 0 is falsy and reported as missing.
  \<open>nearestPeriod\<close> is the \<^verbatim>\<open>reduce\<close> over the sorted keys; the empty string is falsy as
  \<^verbatim>\<open>null\<close> is.  \<open>convert_at\<close> is the part of \<^verbatim>\<open>convert\<close> after the rates of the period
  have been found.
\<close>

fun split_Q :: "string \<Rightarrow> string list" where
  "split_Q [] = [[]]"
| "split_Q [c] = [[c]]"
| "split_Q (c # d # cs) =
     (if c = CHR ''-'' \<and> d = CHR ''Q'' then [] # split_Q cs
      else (case split_Q (d # cs) of [] \<Rightarrow> [[c]] | p # ps \<Rightarrow> (c # p) # ps))"

definition is_space :: "char \<Rightarrow> bool" where
  "is_space c = (of_char c \<in> {9, 10, 11, 12, 13, 32 :: nat})"

definition digit_of :: "nat \<Rightarrow> char \<Rightarrow> nat option" where
  "digit_of radix c =
     (let n = of_char c :: nat;
          v = (if 48 \<le> n \<and> n \<le> 57 then Some (n - 48)
               else if 97 \<le> n \<and> n \<le> 122 then Some (n - 87)
               else if 65 \<le> n \<and> n \<le> 90 then Some (n - 55)
               else None)
      in case v of None \<Rightarrow> None | Some d \<Rightarrow> if d < radix then Some d else None)"

definition digits_value :: "nat \<Rightarrow> string \<Rightarrow> nat" where
  "digits_value radix ds = foldl (\<lambda>acc c. acc * radix + the (digit_of radix c)) 0 ds"

definition parseInt :: "string \<Rightarrow> int option" where
  "parseInt str =
     (let t = dropWhile is_space str;
          neg = (take 1 t = ''-'');
          u = (if take 1 t = ''-'' \<or> take 1 t = ''+'' then drop 1 t else t);
          hex = (take 2 u = ''0x'' \<or> take 2 u = ''0X'');
          radix = (if hex then 16 else 10);
          ds = takeWhile (\<lambda>c. digit_of radix c \<noteq> None) (if hex then drop 2 u else u)
      in if ds = [] then None
         else Some ((if neg then - 1 else 1) * int (digits_value radix ds)))"

definition periodToNumber :: "string \<Rightarrow> int option" where
  "periodToNumber period =
     (case split_Q period of
        year # quarter # _ \<Rightarrow>
          (case (parseInt year, parseInt quarter) of
             (Some y, Some q) \<Rightarrow> Some (y * 4 + q)
           | _ \<Rightarrow> None)
      | _ \<Rightarrow> None)"

definition abs_diff :: "int option \<Rightarrow> int option \<Rightarrow> int option" where
  "abs_diff a b = (case (a, b) of (Some x, Some y) \<Rightarrow> Some \<bar>x - y\<bar> | _ \<Rightarrow> None)"

definition js_less :: "int option \<Rightarrow> int option \<Rightarrow> bool" where
  "js_less a b = (case (a, b) of (Some x, Some y) \<Rightarrow> x < y | _ \<Rightarrow> False)"

type_synonym rate_table = "(string \<times> (string \<times> rat) list) list"

definition falsy_string :: "string option \<Rightarrow> bool" where
  "falsy_string s = (s = None \<or> s = Some [])"

definition nearestPeriod :: "rate_table \<Rightarrow> string \<Rightarrow> string option" where
  "nearestPeriod rates period =
     fold (\<lambda>p nearest.
             if falsy_string nearest then Some p
             else if js_less (abs_diff (periodToNumber p) (periodToNumber period))
                             (abs_diff (periodToNumber (the nearest)) (periodToNumber period))
                  then Some p else nearest)
          (sort (map fst rates)) None"

definition lookup_rate :: "(string \<times> rat) list \<Rightarrow> string \<Rightarrow> string \<Rightarrow> error + rat" where
  "lookup_rate periodRates rateKey period =
     (case map_of periodRates rateKey of
        None \<Rightarrow> Inl (MissingExchangeRate rateKey period)
      | Some r \<Rightarrow> if r = 0 then Inl (MissingExchangeRate rateKey period) else Inr r)"

definition convert_at ::
  "(string \<times> rat) list \<Rightarrow> rat \<Rightarrow> string \<Rightarrow> string \<Rightarrow> string \<Rightarrow> error + rat" where
  "convert_at periodRates amount fromCurrency toCurrency period =
     (case (if fromCurrency \<noteq> ''USD''
            then (case lookup_rate periodRates (fromCurrency @ ''/USD'') period of
                    Inl e \<Rightarrow> Inl e | Inr r \<Rightarrow> Inr (amount * r))
            else Inr amount) of
        Inl e \<Rightarrow> Inl e
      | Inr amountInUSD \<Rightarrow>
          if toCurrency = ''USD'' then Inr amountInUSD
          else (case lookup_rate periodRates (toCurrency @ ''/USD'') period of
                  Inl e \<Rightarrow> Inl e | Inr r \<Rightarrow> Inr (amountInUSD / r)))"

lemma nearestPeriod_key_aux:
  "fold (\<lambda>p nearest.
             if falsy_string nearest then Some p
             else if c p nearest then Some p else nearest) ps init = Some n
   \<Longrightarrow> n \<in> set ps \<or> init = Some n"
  by (induction ps arbitrary: init) (auto split: if_splits)

lemma nearestPeriod_key: "nearestPeriod rates period = Some n \<Longrightarrow> n \<in> fst ` set rates"
  unfolding nearestPeriod_def
  using nearestPeriod_key_aux[of "\<lambda>p nearest. js_less (abs_diff (periodToNumber p) (periodToNumber period))
                             (abs_diff (periodToNumber (the nearest)) (periodToNumber period))"
        "sort (map fst rates)" None n]
  by auto

function convert :: "rate_table \<Rightarrow> rat \<Rightarrow> string \<Rightarrow> string \<Rightarrow> string \<Rightarrow> error + rat" where
  "convert rates amount fromCurrency toCurrency period =
     (if fromCurrency = toCurrency then Inr amount
      else case map_of rates period of
        Some periodRates \<Rightarrow> convert_at periodRates amount fromCurrency toCurrency period
      | None \<Rightarrow>
          (let nearest = nearestPeriod rates period
           in if \<not> falsy_string nearest
              then convert rates amount fromCurrency toCurrency (the nearest)
              else Inl (NoExchangeRate period)))"
  by pat_completeness auto
termination
proof (relation "measure (\<lambda>(rates, amount, f, t, period). if map_of rates period = None then 1 else 0)",
    goal_cases)
  case 1
  show ?case by simp
next
  case (2 rates amount fromCurrency toCurrency period nearest)
  then obtain n where n: "nearestPeriod rates period = Some n"
    by (cases "nearestPeriod rates period") (auto simp: falsy_string_def)
  then have "n \<in> fst ` set rates" by (rule nearestPeriod_key)
  then have "map_of rates n \<noteq> None" by (simp add: map_of_eq_None_iff)
  then show ?case using 2 n by simp
qed

declare convert.simps [simp del]

section \<open>The bill of materials\<close>

text \<open>
  A component's \<^verbatim>\<open>scrapRate\<close> and \<^verbatim>\<open>unit\<close> may be absent.  \<open>index_item\<close> is the body of the
  constructor's loop over \<^verbatim>\<open>billOfMaterials\<close>; the constructor throws when \<^verbatim>\<open>detectCycles\<close>
  finds a cycle.  The audit trail is only written, never read by the engine, and is left out.

  \<^verbatim>\<open>explodeBOM\<close> with its cache made explicit: the function takes the cache and returns it with
  the result.  \<open>explode_components\<close> is its loop over the components; every child gets
  \<^verbatim>\<open>new Set(visited)\<close>, that is the visited set with \<open>productId\<close> added.  The depth is part of
  the stored result.  \<^verbatim>\<open>effectiveQuantity\<close> divides by \<open>1 - scrapRate\<close>; for a scrap rate of 1
  JavaScript gives \<^verbatim>\<open>Infinity\<close>, which the rationals do not have.
\<close>

record component =
  comp_itemId :: string
  comp_quantity :: rat
  comp_scrapRate :: "rat option"
  comp_unit :: "string option"

record bom_item =
  item_productId :: string
  item_components :: "component list"

record bom_edge =
  be_quantity :: rat
  be_scrapRate :: rat
  be_unit :: "string option"

datatype explosion =
  Explosion (ex_productId: string) (ex_isRawMaterial: bool)
    (ex_components: "(component \<times> explosion \<times> rat) list") (ex_depth: nat)

record BOMProcessor =
  bom :: "(string \<times> bom_item) list"
  bomGraph :: "(string, bom_edge) graph"
  explosionCache :: "string \<rightharpoonup> explosion"

definition scrapRate_or_0 :: "component \<Rightarrow> rat" where
  "scrapRate_or_0 c = (case comp_scrapRate c of None \<Rightarrow> 0 | Some r \<Rightarrow> r)"

definition index_item ::
  "bom_item \<Rightarrow> (string \<times> bom_item) list \<times> (string, bom_edge) graph
     \<Rightarrow> (string \<times> bom_item) list \<times> (string, bom_edge) graph" where
  "index_item item s =
     (map_set (item_productId item) item (fst s),
      fold (\<lambda>c g. addEdge (item_productId item) (comp_itemId c)
                     \<lparr>be_quantity = comp_quantity c, be_scrapRate = scrapRate_or_0 c,
                      be_unit = comp_unit c\<rparr> g)
           (item_components item)
           (addNode (item_productId item) (snd s)))"

definition new_BOMProcessor :: "bom_item list \<Rightarrow> (error + BOMProcessor) option" where
  "new_BOMProcessor billOfMaterials =
     (let s = fold index_item billOfMaterials ([], new_Graph)
      in case detectCycles (snd s) of
           None \<Rightarrow> None
         | Some cycles \<Rightarrow>
             Some (if cycles \<noteq> [] then Inl (BomContainsCycles cycles)
                   else Inr \<lparr>bom = fst s, bomGraph = snd s, explosionCache = Map.empty\<rparr>))"

definition getExplosionOrder :: "BOMProcessor \<Rightarrow> error + string list" where
  "getExplosionOrder bp =
     (case topologicalSort (bomGraph bp) of Inl e \<Rightarrow> Inl e | Inr order \<Rightarrow> Inr (rev order))"

definition getProduct :: "BOMProcessor \<Rightarrow> string \<Rightarrow> bom_item option" where
  "getProduct bp productId = map_of (bom bp) productId"

definition getAllProducts :: "BOMProcessor \<Rightarrow> string list" where
  "getAllProducts bp = map fst (bom bp)"

definition bom_gap :: "(string \<times> bom_item) list \<Rightarrow> string set \<Rightarrow> nat" where
  "bom_gap b visited = card (fst ` set b - visited)"

function explodeBOM ::
    "(string \<times> bom_item) list \<Rightarrow> string \<Rightarrow> nat \<Rightarrow> string set \<Rightarrow> (string \<rightharpoonup> explosion)
       \<Rightarrow> (error + explosion) \<times> (string \<rightharpoonup> explosion)"
  and explode_components ::
    "(string \<times> bom_item) list \<Rightarrow> component list \<Rightarrow> nat \<Rightarrow> string set \<Rightarrow> (string \<rightharpoonup> explosion)
       \<Rightarrow> (error + (component \<times> explosion \<times> rat) list) \<times> (string \<rightharpoonup> explosion)" where
  "explodeBOM b productId depth visited cache =
     (case cache productId of
        Some cached \<Rightarrow> (Inr cached, cache)
      | None \<Rightarrow>
          if productId \<in> visited then (Inl (CircularReference productId), cache)
          else (case map_of b productId of
                  None \<Rightarrow> (Inr (Explosion productId True [] depth), cache)
                | Some product \<Rightarrow>
                    if item_components product = []
                    then (Inr (Explosion productId True [] depth),
                          cache(productId \<mapsto> Explosion productId True [] depth))
                    else (case explode_components b (item_components product) (depth + 1)
                                 (insert productId visited) cache of
                            (Inl e, cache') \<Rightarrow> (Inl e, cache')
                          | (Inr explodedComponents, cache') \<Rightarrow>
                              (Inr (Explosion productId False explodedComponents depth),
                               cache'(productId \<mapsto> Explosion productId False explodedComponents depth)))))"
| "explode_components b [] depth visited cache = (Inr [], cache)"
| "explode_components b (c # cs) depth visited cache =
     (case explodeBOM b (comp_itemId c) depth visited cache of
        (Inl e, cache') \<Rightarrow> (Inl e, cache')
      | (Inr childExplosion, cache') \<Rightarrow>
          (case explode_components b cs depth visited cache' of
             (Inl e, cache'') \<Rightarrow> (Inl e, cache'')
           | (Inr rest, cache'') \<Rightarrow>
               (Inr ((c, childExplosion, comp_quantity c / (1 - scrapRate_or_0 c)) # rest), cache'')))"
  by pat_completeness auto
termination
proof (relation "inv_image (less_than <*lex*> less_than)
    (\<lambda>x. case x of
            Inl (b, productId, depth, visited, cache) \<Rightarrow> (bom_gap b visited, 0)
          | Inr (b, cs, depth, visited, cache) \<Rightarrow> (bom_gap b visited, Suc (length cs)))", goal_cases)
  case 1
  show ?case by (intro wf_inv_image wf_lex_prod wf_less_than)
next
  case (2 b productId depth visited cache product)
  then have "productId \<in> fst ` set b" by (metis domI dom_map_of_conv_image_fst)
  then have "fst ` set b - insert productId visited \<subset> fst ` set b - visited"
    using 2 by auto
  then have "bom_gap b (insert productId visited) < bom_gap b visited"
    unfolding bom_gap_def by (intro psubset_card_mono) auto
  then show ?case by simp
next
  case 3
  then show ?case by simp
next
  case 4
  then show ?case by simp
qed

declare explodeBOM.simps [simp del]

section \<open>Entities, rules and the calculator\<close>

text \<open>
  \<^verbatim>\<open>EntityManager\<close> keeps the entities in a \<^verbatim>\<open>Map\<close> by id and the transfer routes as the
  edges of a graph whose metadata are the item types, the markup type and the markup value.
  \<^verbatim>\<open>findTransferPaths\<close> is \<^verbatim>\<open>findAllPaths\<close> with the default bound 10.

  A rule is a record with all the parameters a rule type may read; a rule of another type
  ignores them.  \<^verbatim>\<open>RuleEngine\<close>'s constructor adds every rule as a node and every dependency
  as an edge from the dependency to the rule, throws on a cycle and stores the topological
  order.

  The calculator holds the cost state, the three components, the index of the period costs
  (\<^verbatim>\<open>itemId:entityId:period\<close> to unit cost and currency), the production volumes, the cost
  pools, the transfer routes and the list of warnings.
\<close>

record entity =
  ent_id :: string
  ent_type :: string
  ent_country :: string
  ent_currency :: string

record route =
  route_from :: string
  route_to :: string
  route_itemTypes :: "string list"
  route_markupType :: string
  route_markupValue :: rat

record route_edge =
  re_itemTypes :: "string list"
  re_markupType :: string
  re_markupValue :: rat

record EntityManager =
  entities :: "(string \<times> entity) list"
  transferGraph :: "(string, route_edge) graph"

definition new_EntityManager :: "entity list \<Rightarrow> route list \<Rightarrow> EntityManager" where
  "new_EntityManager ents transferRoutes =
     (let s = fold (\<lambda>e s. (map_set (ent_id e) e (fst s), addNode (ent_id e) (snd s))) ents ([], new_Graph)
      in \<lparr>entities = fst s,
          transferGraph =
            fold (\<lambda>r g. addEdge (route_from r) (route_to r)
                           \<lparr>re_itemTypes = route_itemTypes r, re_markupType = route_markupType r,
                            re_markupValue = route_markupValue r\<rparr> g)
                 transferRoutes (snd s)\<rparr>)"

definition getEntity :: "EntityManager \<Rightarrow> string \<Rightarrow> entity option" where
  "getEntity em entityId = map_of (entities em) entityId"

definition getAllEntities :: "EntityManager \<Rightarrow> entity list" where
  "getAllEntities em = map snd (entities em)"

definition getManufacturingEntities :: "EntityManager \<Rightarrow> entity list" where
  "getManufacturingEntities em = filter (\<lambda>e. ent_type e = ''manufacturing'') (getAllEntities em)"

definition getDistributionEntities :: "EntityManager \<Rightarrow> entity list" where
  "getDistributionEntities em = filter (\<lambda>e. ent_type e = ''distribution'') (getAllEntities em)"

definition findTransferPaths ::
  "EntityManager \<Rightarrow> string \<Rightarrow> string \<Rightarrow> (string, route_edge) step list list" where
  "findTransferPaths em fromEntity toEntity = findAllPaths (transferGraph em) fromEntity toEntity 10"

definition isCrossBorder :: "EntityManager \<Rightarrow> string \<Rightarrow> string \<Rightarrow> bool" where
  "isCrossBorder em fromEntityId toEntityId =
     (case (getEntity em fromEntityId, getEntity em toEntityId) of
        (Some f, Some t) \<Rightarrow> ent_country f \<noteq> ent_country t
      | _ \<Rightarrow> False)"

record rule =
  rule_id :: string
  rule_type :: string
  rule_dependencies :: "string list"
  rule_burdenRate :: rat
  rule_baseRules :: "string list"
  rule_percentage :: rat
  rule_poolId :: string
  rule_lookbackPeriods :: "int option"
  rule_transferType :: string

record RuleEngine =
  rules :: "(string \<times> rule) list"
  ruleGraph :: "(string, unit) graph"
  executionOrder :: "string list"

definition new_RuleEngine :: "rule list \<Rightarrow> (error + RuleEngine) option" where
  "new_RuleEngine allocationRules =
     (let s = fold (\<lambda>r s. (map_set (rule_id r) r (fst s), addNode (rule_id r) (snd s)))
                allocationRules ([], new_Graph);
          g = fold (\<lambda>r g. fold (\<lambda>depId g. addEdge depId (rule_id r) () g) (rule_dependencies r) g)
                allocationRules (snd s)
      in case detectCycles g of
           None \<Rightarrow> None
         | Some cycles \<Rightarrow>
             Some (if cycles \<noteq> [] then Inl (RuleDependenciesContainCycles cycles)
                   else (case topologicalSort g of
                           Inl e \<Rightarrow> Inl e
                         | Inr order \<Rightarrow> Inr \<lparr>rules = fst s, ruleGraph = g, executionOrder = order\<rparr>)))"

definition getExecutionOrder :: "RuleEngine \<Rightarrow> string list" where
  "getExecutionOrder re = executionOrder re"

definition getRule :: "RuleEngine \<Rightarrow> string \<Rightarrow> rule option" where
  "getRule re ruleId = map_of (rules re) ruleId"

record item_cost =
  ic_unit :: rat
  ic_currency :: string

record pool_amount =
  pa_amount :: rat
  pa_currency :: string

record cost_pool =
  pool_entityId :: string
  pool_periods :: "(string \<times> pool_amount) list"

record CostCalculator =
  costState :: CostState
  bomProcessor :: BOMProcessor
  exchangeRates :: rate_table
  entityManager :: EntityManager
  ruleEngine :: RuleEngine
  periodCosts :: "string \<rightharpoonup> item_cost"
  productionVolumes :: "(string \<times> (string \<times> (string \<times> rat) list) list) list"
  costPools :: "(string \<times> cost_pool) list"
  transferRoutes :: "route list"
  warnings :: "string list"

definition getItemCost :: "CostCalculator \<Rightarrow> string \<Rightarrow> string \<Rightarrow> string \<Rightarrow> item_cost option" where
  "getItemCost calc itemId entityId period = periodCosts calc (itemId @ '':'' @ entityId @ '':'' @ period)"

text \<open>
  \<^verbatim>\<open>getPriorPeriods\<close> reads the two pieces of the label with \<^verbatim>\<open>Number\<close>.  \<open>jsNumber\<close> is
  \<^verbatim>\<open>Number\<close> on the strings a period label is made of: white space is trimmed, the empty
  string is 0, an optionally signed string of decimal digits is its value, and everything
  else is \<^verbatim>\<open>NaN\<close> (fractions, exponents and radix prefixes are not part of the model).
  \<open>show_number\<close> is the conversion of such a number back to a string in a template literal.
  \<^verbatim>\<open>quarter--\<close> on \<^verbatim>\<open>NaN\<close> stays \<^verbatim>\<open>NaN\<close>, and \<^verbatim>\<open>NaN < 1\<close> is false.
\<close>

definition trim :: "string \<Rightarrow> string" where
  "trim s = rev (dropWhile is_space (rev (dropWhile is_space s)))"

definition jsNumber :: "string \<Rightarrow> int option" where
  "jsNumber str =
     (let t = trim str;
          neg = (take 1 t = ''-'');
          u = (if take 1 t = ''-'' \<or> take 1 t = ''+'' then drop 1 t else t)
      in if t = [] then Some 0
         else if u \<noteq> [] \<and> (\<forall>c \<in> set u. digit_of 10 c \<noteq> None)
         then Some ((if neg then - 1 else 1) * int (digits_value 10 u))
         else None)"

fun nat_digits :: "nat \<Rightarrow> string" where
  "nat_digits n =
     (if n < 10 then [char_of (48 + n)] else nat_digits (n div 10) @ [char_of (48 + n mod 10)])"

declare nat_digits.simps [simp del]

definition show_number :: "int option \<Rightarrow> string" where
  "show_number x =
     (case x of None \<Rightarrow> ''NaN''
      | Some i \<Rightarrow> if i < 0 then ''-'' @ nat_digits (nat (- i)) else nat_digits (nat i))"

fun prior_periods :: "nat \<Rightarrow> int option \<Rightarrow> int option \<Rightarrow> string list" where
  "prior_periods 0 year quarter = []"
| "prior_periods (Suc n) year quarter =
     (let q1 = map_option (\<lambda>q. q - 1) quarter;
          q2 = (if js_less q1 (Some 1) then Some 4 else q1);
          y2 = (if js_less q1 (Some 1) then map_option (\<lambda>y. y - 1) year else year)
      in (show_number y2 @ ''-Q'' @ show_number q2) # prior_periods n y2 q2)"

definition getPriorPeriods :: "string \<Rightarrow> int \<Rightarrow> string list" where
  "getPriorPeriods period count =
     (let parts = map jsNumber (split_Q period);
          year = (case parts of y # _ \<Rightarrow> y | _ \<Rightarrow> None);
          quarter = (case parts of _ # q # _ \<Rightarrow> q | _ \<Rightarrow> None)
      in prior_periods (nat count) year quarter)"

definition getTotalProductionVolume :: "CostCalculator \<Rightarrow> string \<Rightarrow> int option \<Rightarrow> rat" where
  "getTotalProductionVolume calc period lookbackPeriods =
     (let lookback = (case lookbackPeriods of None \<Rightarrow> 1 | Some n \<Rightarrow> n);
          periods = period # getPriorPeriods period (lookback - 1);
          total = foldl (\<lambda>total p.
                    case map_of (productionVolumes calc) p of
                      None \<Rightarrow> total
                    | Some periodVolumes \<Rightarrow>
                        foldl (\<lambda>total entityVolumes. foldl (\<lambda>total volume. total + volume) total
                                 (map snd entityVolumes))
                              total (map snd periodVolumes))
                  0 periods
      in total / rat_of_nat (length periods))"

definition getProductVolume :: "CostCalculator \<Rightarrow> string \<Rightarrow> string \<Rightarrow> string \<Rightarrow> rat" where
  "getProductVolume calc productId entityId period =
     (case map_of (productionVolumes calc) period of
        None \<Rightarrow> 0
      | Some periodVolumes \<Rightarrow>
          (case map_of periodVolumes entityId of
             None \<Rightarrow> 0
           | Some entityVolumes \<Rightarrow>
               (case map_of entityVolumes productId of None \<Rightarrow> 0 | Some v \<Rightarrow> v)))"

text \<open>
  \<^verbatim>\<open>calculateBaseCost\<close>.  \<open>base_component\<close> is the body of the loop over the components of an
  assembly, on the three accumulators \<^verbatim>\<open>directMaterialCost\<close>, \<^verbatim>\<open>directLaborCost\<close> and
  \<^verbatim>\<open>componentCosts\<close>; a conversion that throws ends the call.  \<open>or_else a b\<close> is
  \<^verbatim>\<open>a || b\<close> on numbers.  The function returns \<^verbatim>\<open>null\<close> for a product that is not in the BOM,
  and otherwise the new breakdown, which it has stored in the cost state.
\<close>

definition or_else :: "rat \<Rightarrow> rat \<Rightarrow> rat" where
  "or_else a b = (if a \<noteq> 0 then a else b)"

definition base_component ::
  "CostCalculator \<Rightarrow> string \<Rightarrow> string \<Rightarrow> string \<Rightarrow> component
     \<Rightarrow> rat \<times> rat \<times> component_cost list \<Rightarrow> error + rat \<times> rat \<times> component_cost list" where
  "base_component calc entityId period targetCurrency c acc =
     (let directMaterialCost = fst acc; directLaborCost = fst (snd acc); componentCosts = snd (snd acc);
          isLabor = (comp_unit c = Some ''hours'');
          scrapMultiplier = 1 / (1 - scrapRate_or_0 c)
      in if isLabor then
           (case getItemCost calc (comp_itemId c) entityId period of
              None \<Rightarrow> Inr acc
            | Some laborRate \<Rightarrow>
                (case convert (exchangeRates calc) (ic_unit laborRate * comp_quantity c * scrapMultiplier)
                        (ic_currency laborRate) targetCurrency period of
                   Inl e \<Rightarrow> Inl e
                 | Inr laborCost \<Rightarrow>
                     Inr (directMaterialCost, directLaborCost + laborCost,
                          componentCosts @ [\<lparr>cc_itemId = comp_itemId c, cc_type = ''labor'',
                             cc_quantity = comp_quantity c, cc_scrapMultiplier = scrapMultiplier,
                             cc_unitCost = None, cc_cost = laborCost\<rparr>])))
         else
           (case getCost (costState calc) (comp_itemId c) entityId period of
              Some componentCost \<Rightarrow>
                (let unitCost = or_else (totalCost componentCost) (or_else (directMaterial componentCost) 0);
                     totalComponentCost = unitCost * comp_quantity c * scrapMultiplier
                 in Inr (directMaterialCost + totalComponentCost, directLaborCost,
                         componentCosts @ [\<lparr>cc_itemId = comp_itemId c, cc_type = ''material'',
                            cc_quantity = comp_quantity c, cc_scrapMultiplier = scrapMultiplier,
                            cc_unitCost = Some unitCost, cc_cost = totalComponentCost\<rparr>]))
            | None \<Rightarrow>
                (case getItemCost calc (comp_itemId c) entityId period of
                   None \<Rightarrow> Inr acc
                 | Some rawCost \<Rightarrow>
                     (case convert (exchangeRates calc) (ic_unit rawCost * comp_quantity c * scrapMultiplier)
                             (ic_currency rawCost) targetCurrency period of
                        Inl e \<Rightarrow> Inl e
                      | Inr materialCost \<Rightarrow>
                          Inr (directMaterialCost + materialCost, directLaborCost,
                               componentCosts @ [\<lparr>cc_itemId = comp_itemId c, cc_type = ''raw-material'',
                                  cc_quantity = comp_quantity c, cc_scrapMultiplier = scrapMultiplier,
                                  cc_unitCost = Some (ic_unit rawCost), cc_cost = materialCost\<rparr>])))))"

fun base_components ::
  "CostCalculator \<Rightarrow> string \<Rightarrow> string \<Rightarrow> string \<Rightarrow> component list
     \<Rightarrow> rat \<times> rat \<times> component_cost list \<Rightarrow> error + rat \<times> rat \<times> component_cost list" where
  "base_components calc entityId period targetCurrency [] acc = Inr acc"
| "base_components calc entityId period targetCurrency (c # cs) acc =
     (case base_component calc entityId period targetCurrency c acc of
        Inl e \<Rightarrow> Inl e
      | Inr acc' \<Rightarrow> base_components calc entityId period targetCurrency cs acc')"

definition new_breakdown :: "rat \<Rightarrow> rat \<Rightarrow> component_cost list \<Rightarrow> cost_record" where
  "new_breakdown directMaterialCost directLaborCost componentCosts =
     \<lparr>directMaterial = directMaterialCost, directLabor = directLaborCost, scrapAdjustment = 0,
      laborBurden = 0, factoryOverhead = 0, rndAmortization = 0, royalty = 0, managementFee = 0,
      interCompanyMarkup = 0, customsDuties = 0,
      totalCost = directMaterialCost + directLaborCost,
      componentBreakdown = componentCosts, sourceEntity = None, transferPath = None,
      key_of_record = None\<rparr>"

definition calculateBaseCost ::
  "CostCalculator \<Rightarrow> string \<Rightarrow> string \<Rightarrow> string \<Rightarrow> string
     \<Rightarrow> error + cost_record option \<times> CostCalculator" where
  "calculateBaseCost calc productId entityId period targetCurrency =
     (case getProduct (bomProcessor calc) productId of
        None \<Rightarrow> Inr (None, calc)
      | Some product \<Rightarrow>
          (case (if item_components product = []
                 then (case getItemCost calc productId entityId period of
                         None \<Rightarrow> Inr (0, 0, [])
                       | Some costData \<Rightarrow>
                           (case convert (exchangeRates calc) (ic_unit costData) (ic_currency costData)
                                   targetCurrency period of
                              Inl e \<Rightarrow> Inl e
                            | Inr directMaterialCost \<Rightarrow> Inr (directMaterialCost, 0, [])))
                 else base_components calc entityId period targetCurrency (item_components product)
                        (0, 0, [])) of
             Inl e \<Rightarrow> Inl e
           | Inr acc \<Rightarrow>
               (let breakdown = new_breakdown (fst acc) (fst (snd acc)) (snd (snd acc))
                in Inr (Some breakdown,
                        calc\<lparr>costState := setCost productId entityId period breakdown (costState calc)\<rparr>))))"

text \<open>
  \<^verbatim>\<open>applyRule\<close>.  \<open>rule_effect\<close> is the \<^verbatim>\<open>switch\<close> on the rule type: it returns the cost
  record as the branch leaves it and the rule output.  \<open>charge_routes\<close> and \<open>charge_fees\<close>
  are the loops over the royalty and the management-fee routes into the entity.  The record
  is mutated in place in the source and stored again at the end; the only statement that can
  throw, the conversion of the pool amount, comes before the mutation of its branch.
\<close>

definition baseAmount_of :: "string list \<Rightarrow> cost_record \<Rightarrow> rat" where
  "baseAmount_of baseRules cost =
     foldl (\<lambda>sum baseRuleId.
              if baseRuleId = ''RULE-002'' then sum + directMaterial cost + scrapAdjustment cost
              else if baseRuleId = ''RULE-003'' then sum + directLabor cost + laborBurden cost
              else sum)
           0 baseRules"

definition charge_routes ::
  "route list \<Rightarrow> cost_record \<times> rat \<Rightarrow> cost_record \<times> rat" where
  "charge_routes royaltyRoutes s =
     foldl (\<lambda>s r.
              if route_markupType r = ''revenue-percent''
              then (let cost = fst s; royaltyAmount = totalCost cost * route_markupValue r
                    in (cost\<lparr>royalty := royalty cost + royaltyAmount,
                              totalCost := totalCost cost + royaltyAmount\<rparr>,
                        snd s + royaltyAmount))
              else s)
           s royaltyRoutes"

definition charge_fees ::
  "route list \<Rightarrow> cost_record \<times> rat \<Rightarrow> cost_record \<times> rat" where
  "charge_fees mgmtRoutes s =
     foldl (\<lambda>s r.
              if route_markupType r = ''revenue-percent''
              then (let cost = fst s; fee = totalCost cost * route_markupValue r
                    in (cost\<lparr>managementFee := managementFee cost + fee,
                              totalCost := totalCost cost + fee\<rparr>,
                        snd s + fee))
              else s)
           s mgmtRoutes"

definition rule_effect ::
  "CostCalculator \<Rightarrow> rule \<Rightarrow> string \<Rightarrow> string \<Rightarrow> string \<Rightarrow> string \<Rightarrow> cost_record
     \<Rightarrow> error + cost_record \<times> rat" where
  "rule_effect calc rl productId entityId period targetCurrency cost =
     (if rule_type rl = ''sum-components'' then Inr (cost, directMaterial cost + directLabor cost)
      else if rule_type rl = ''multiply'' then Inr (cost, 0)
      else if rule_type rl = ''labor-burden'' then
        (if directLabor cost > 0
         then (let burden = directLabor cost * rule_burdenRate rl
               in Inr (cost\<lparr>laborBurden := burden, totalCost := totalCost cost + burden\<rparr>, burden))
         else Inr (cost, 0))
      else if rule_type rl = ''percentage-of-base'' then
        (let baseAmount = baseAmount_of (rule_baseRules rl) cost;
             overhead = baseAmount * rule_percentage rl
         in Inr (cost\<lparr>factoryOverhead := overhead, totalCost := totalCost cost + overhead\<rparr>, overhead))
      else if rule_type rl = ''per-unit-allocation'' then
        (case map_of (costPools calc) (rule_poolId rl) of
           None \<Rightarrow> Inr (cost, 0)
         | Some pool \<Rightarrow>
             (let totalVolume = getTotalProductionVolume calc period (rule_lookbackPeriods rl);
                  productVolume = getProductVolume calc productId entityId period
              in if totalVolume > 0 \<and> productVolume > 0
                 then (case convert (exchangeRates calc)
                              (case map_of (pool_periods pool) period of None \<Rightarrow> 0 | Some a \<Rightarrow> pa_amount a)
                              (case map_of (pool_periods pool) period of
                                 None \<Rightarrow> ''USD''
                               | Some a \<Rightarrow> if pa_currency a = [] then ''USD'' else pa_currency a)
                              targetCurrency period of
                         Inl e \<Rightarrow> Inl e
                       | Inr poolAmount \<Rightarrow>
                           (let allocation = (poolAmount / totalVolume) * (productVolume / productVolume)
                            in Inr (cost\<lparr>rndAmortization := allocation,
                                         totalCost := totalCost cost + allocation\<rparr>, allocation)))
                 else Inr (cost, 0)))
      else if rule_type rl = ''transfer-price'' then
        (if rule_transferType rl = ''royalty''
         then Inr (charge_routes
                     (filter (\<lambda>r. route_to r = entityId \<and> ''royalty'' \<in> set (route_itemTypes r))
                        (transferRoutes calc)) (cost, 0))
         else if rule_transferType rl = ''mgmt-fee''
         then Inr (charge_fees
                     (filter (\<lambda>r. route_to r = entityId \<and> ''mgmt-fee'' \<in> set (route_itemTypes r))
                        (transferRoutes calc)) (cost, 0))
         else Inr (cost, 0))
      else Inr (cost, 0))"

definition applyRule ::
  "CostCalculator \<Rightarrow> rule \<Rightarrow> string \<Rightarrow> string \<Rightarrow> string \<Rightarrow> string \<Rightarrow> error + CostCalculator" where
  "applyRule calc rl productId entityId period targetCurrency =
     (case getCost (costState calc) productId entityId period of
        None \<Rightarrow> Inr calc
      | Some cost \<Rightarrow>
          (case rule_effect calc rl productId entityId period targetCurrency cost of
             Inl e \<Rightarrow> Inl e
           | Inr (cost', ruleOutput) \<Rightarrow>
               Inr (calc\<lparr>costState :=
                      setCost productId entityId period cost'
                        (setRuleOutput (rule_id rl) productId entityId period ruleOutput
                           (costState calc))\<rparr>)))"

text \<open>
  \<^verbatim>\<open>calculateTransferPrice\<close>.  \<open>hop_cost\<close> is one pass of the loop along a path: the markup of
  the route, then the duty when the hop crosses a border (\<^verbatim>\<open>isCrossBorder\<close> is true only when
  both entities exist).  \<open>apply_hops\<close> runs it from the second step on; a step without an
  edge would be a \<^verbatim>\<open>TypeError\<close> in the source.  \<^verbatim>\<open>bestCost\<close> starts as \<^verbatim>\<open>Infinity\<close>, here
  \<open>None\<close>, and is replaced only by a strictly smaller cost.  \<open>consider_path\<close>,
  \<open>consider_paths\<close> and \<open>consider_sources\<close> are the body of the inner loop and the two loops.
  The record stored for the destination has no component breakdown.
\<close>

definition dutyRate_of :: "entity \<Rightarrow> rat" where
  "dutyRate_of toEntity =
     (let dutyRate = 3 / 100;
          dutyRate = (if ent_country toEntity = ''US'' then 25 / 1000 else dutyRate);
          dutyRate = (if ent_country toEntity = ''DE'' then 4 / 100 else dutyRate)
      in dutyRate)"

definition hop_cost :: "EntityManager \<Rightarrow> string \<Rightarrow> string \<Rightarrow> route_edge \<Rightarrow> rat \<Rightarrow> rat" where
  "hop_cost em prevEntity node route transferCost =
     (let marked = (if re_markupType route = ''cost-plus'' then transferCost * (1 + re_markupValue route)
                    else if re_markupType route = ''resale-minus''
                    then transferCost * (1 + re_markupValue route * (1 / 2))
                    else transferCost)
      in if isCrossBorder em prevEntity node
         then (case getEntity em node of
                 None \<Rightarrow> marked
               | Some toEntity \<Rightarrow> marked + marked * dutyRate_of toEntity)
         else marked)"

fun apply_hops ::
  "EntityManager \<Rightarrow> string \<Rightarrow> (string, route_edge) step list \<Rightarrow> rat \<times> path_cost list
     \<Rightarrow> error + rat \<times> path_cost list" where
  "apply_hops em prevEntity [] acc = Inr acc"
| "apply_hops em prevEntity (step # rest) acc =
     (case snd step of
        None \<Rightarrow> Inl TypeError
      | Some edge \<Rightarrow>
          (let transferCost = hop_cost em prevEntity (fst step) (snd edge) (fst acc)
           in apply_hops em (fst step) rest
                (transferCost,
                 snd acc @ [\<lparr>pc_entity = fst step, pc_cost = transferCost,
                             pc_markup = Some (re_markupValue (snd edge))\<rparr>])))"

record best_path =
  bestCost :: "rat option"
  bestPath :: "path_cost list option"
  bestSourceEntity :: "string option"

definition consider_path ::
  "CostCalculator \<Rightarrow> string \<Rightarrow> string \<Rightarrow> string \<Rightarrow> (string, route_edge) step list
     \<Rightarrow> best_path \<Rightarrow> error + best_path" where
  "consider_path calc productId period mfgId path best =
     (case getCost (costState calc) productId mfgId period of
        None \<Rightarrow> Inr best
      | Some sourceCost \<Rightarrow>
          (case apply_hops (entityManager calc) (case path of [] \<Rightarrow> mfgId | s # _ \<Rightarrow> fst s) (drop 1 path)
                  (totalCost sourceCost, [\<lparr>pc_entity = mfgId, pc_cost = totalCost sourceCost, pc_markup = None\<rparr>]) of
             Inl e \<Rightarrow> Inl e
           | Inr (transferCost, pathCosts) \<Rightarrow>
               Inr (if (case bestCost best of None \<Rightarrow> True | Some b \<Rightarrow> transferCost < b)
                    then \<lparr>bestCost = Some transferCost, bestPath = Some pathCosts,
                          bestSourceEntity = Some mfgId\<rparr>
                    else best)))"

fun consider_paths ::
  "CostCalculator \<Rightarrow> string \<Rightarrow> string \<Rightarrow> string \<Rightarrow> (string, route_edge) step list list
     \<Rightarrow> best_path \<Rightarrow> error + best_path" where
  "consider_paths calc productId period mfgId [] best = Inr best"
| "consider_paths calc productId period mfgId (path # paths) best =
     (case consider_path calc productId period mfgId path best of
        Inl e \<Rightarrow> Inl e
      | Inr best' \<Rightarrow> consider_paths calc productId period mfgId paths best')"

fun consider_sources ::
  "CostCalculator \<Rightarrow> string \<Rightarrow> string \<Rightarrow> string \<Rightarrow> entity list \<Rightarrow> best_path \<Rightarrow> error + best_path" where
  "consider_sources calc productId destEntityId period [] best = Inr best"
| "consider_sources calc productId destEntityId period (mfgEntity # rest) best =
     (case consider_paths calc productId period (ent_id mfgEntity)
             (findTransferPaths (entityManager calc) (ent_id mfgEntity) destEntityId) best of
        Inl e \<Rightarrow> Inl e
      | Inr best' \<Rightarrow> consider_sources calc productId destEntityId period rest best')"

definition transfer_breakdown :: "cost_record \<Rightarrow> rat \<Rightarrow> string \<Rightarrow> path_cost list \<Rightarrow> cost_record" where
  "transfer_breakdown sourceCost best src pathCosts =
     \<lparr>directMaterial = directMaterial sourceCost, directLabor = directLabor sourceCost,
      scrapAdjustment = scrapAdjustment sourceCost, laborBurden = laborBurden sourceCost,
      factoryOverhead = factoryOverhead sourceCost, rndAmortization = rndAmortization sourceCost,
      royalty = royalty sourceCost, managementFee = managementFee sourceCost,
      interCompanyMarkup = best - totalCost sourceCost, customsDuties = 0,
      totalCost = best, componentBreakdown = [], sourceEntity = Some src,
      transferPath = Some pathCosts, key_of_record = None\<rparr>"

definition calculateTransferPrice ::
  "CostCalculator \<Rightarrow> string \<Rightarrow> string \<Rightarrow> string \<Rightarrow> string \<Rightarrow> error + CostCalculator" where
  "calculateTransferPrice calc productId destEntityId period targetCurrency =
     (case getEntity (entityManager calc) destEntityId of
        None \<Rightarrow> Inr calc
      | Some destEntity \<Rightarrow>
          if ent_type destEntity \<noteq> ''distribution'' then Inr calc
          else (case consider_sources calc productId destEntityId period
                       (getManufacturingEntities (entityManager calc))
                       \<lparr>bestCost = None, bestPath = None, bestSourceEntity = None\<rparr> of
                  Inl e \<Rightarrow> Inl e
                | Inr best \<Rightarrow>
                    (case (bestCost best, bestPath best, bestSourceEntity best) of
                       (Some bc, Some bp, Some src) \<Rightarrow>
                         (case getCost (costState calc) productId src period of
                            None \<Rightarrow> Inl TypeError
                          | Some sourceCost \<Rightarrow>
                              Inr (calc\<lparr>costState :=
                                     setCost productId destEntityId period
                                       (transfer_breakdown sourceCost bc src bp) (costState calc)\<rparr>))
                     | _ \<Rightarrow> Inr calc)))"

text \<open>
  \<^verbatim>\<open>resolveRoyaltyCycle\<close>.  \<open>royalty_iteration\<close> is the body of the loop: the base cost is
  computed again and the royalty rules of the execution order are applied; an id in the
  execution order that is no rule (a dependency that was never declared) makes
  \<^verbatim>\<open>rule.type\<close> a \<^verbatim>\<open>TypeError\<close>.  \<open>royalty_loop\<close> is the \<^verbatim>\<open>while\<close> loop on
  \<^verbatim>\<open>prevCost\<close>, \<^verbatim>\<open>currentCost\<close> and \<^verbatim>\<open>iterations\<close>.
\<close>

fun apply_royalty_rules ::
  "CostCalculator \<Rightarrow> string list \<Rightarrow> string \<Rightarrow> string \<Rightarrow> string \<Rightarrow> string \<Rightarrow> error + CostCalculator" where
  "apply_royalty_rules calc [] productId entityId period targetCurrency = Inr calc"
| "apply_royalty_rules calc (ruleId # rest) productId entityId period targetCurrency =
     (case getRule (ruleEngine calc) ruleId of
        None \<Rightarrow> Inl TypeError
      | Some rl \<Rightarrow>
          if rule_type rl = ''transfer-price'' \<and> rule_transferType rl = ''royalty''
          then (case applyRule calc rl productId entityId period targetCurrency of
                  Inl e \<Rightarrow> Inl e
                | Inr calc' \<Rightarrow> apply_royalty_rules calc' rest productId entityId period targetCurrency)
          else apply_royalty_rules calc rest productId entityId period targetCurrency)"

definition current_total :: "CostCalculator \<Rightarrow> string \<Rightarrow> string \<Rightarrow> string \<Rightarrow> rat" where
  "current_total calc productId entityId period =
     (case getCost (costState calc) productId entityId period of None \<Rightarrow> 0 | Some c \<Rightarrow> totalCost c)"

definition royalty_iteration ::
  "CostCalculator \<Rightarrow> string \<Rightarrow> string \<Rightarrow> string \<Rightarrow> string \<Rightarrow> error + CostCalculator" where
  "royalty_iteration calc productId entityId period targetCurrency =
     (case calculateBaseCost calc productId entityId period targetCurrency of
        Inl e \<Rightarrow> Inl e
      | Inr (_, calc1) \<Rightarrow>
          apply_royalty_rules calc1 (getExecutionOrder (ruleEngine calc1))
            productId entityId period targetCurrency)"

record convergence =
  converged :: bool
  iterations :: nat
  finalCost :: rat

text \<open>
  The loop of \<^verbatim>\<open>resolveRoyaltyCycle\<close>.  \<^verbatim>\<open>iterations\<close> is a counter that starts at 0 and is
  incremented, a natural number; \<^verbatim>\<open>maxIterations\<close> and \<^verbatim>\<open>tolerance\<close> are arguments, any
  (finite) number, and the test \<^verbatim>\<open>iterations < maxIterations\<close> compares the counter with it.
  The loop ends because the distance from the counter to the cap shrinks.
\<close>

function royalty_loop ::
  "string \<Rightarrow> string \<Rightarrow> string \<Rightarrow> string \<Rightarrow> rat \<Rightarrow> rat \<Rightarrow> rat \<Rightarrow> rat \<Rightarrow> nat \<Rightarrow> CostCalculator
     \<Rightarrow> error + (rat \<times> rat \<times> nat \<times> CostCalculator)" where
  "royalty_loop productId entityId period targetCurrency maxIterations tolerance
       prevCost currentCost iters calc =
     (if \<bar>currentCost - prevCost\<bar> > tolerance \<and> of_nat iters < maxIterations
      then (case royalty_iteration calc productId entityId period targetCurrency of
              Inl e \<Rightarrow> Inl e
            | Inr calc' \<Rightarrow>
                royalty_loop productId entityId period targetCurrency maxIterations tolerance
                  currentCost (current_total calc' productId entityId period) (iters + 1) calc')
      else Inr (prevCost, currentCost, iters, calc))"
  by pat_completeness auto
termination
proof (relation "measure (\<lambda>(productId, entityId, period, targetCurrency, maxIterations, tolerance,
                          prevCost, currentCost, iters, calc). nat \<lceil>maxIterations - of_nat iters\<rceil>)")
  show "wf (measure (\<lambda>(productId :: string, entityId :: string, period :: string,
                       targetCurrency :: string, maxIterations :: rat, tolerance :: rat,
                       prevCost :: rat, currentCost :: rat, iters :: nat, calc :: CostCalculator).
                      nat \<lceil>maxIterations - of_nat iters\<rceil>))"
    by simp
next
  fix productId entityId period targetCurrency :: string
  fix maxIterations tolerance prevCost currentCost :: rat
  fix iters :: nat and calc x2 :: CostCalculator
  assume "tolerance < \<bar>currentCost - prevCost\<bar> \<and> of_nat iters < maxIterations"
  then have "0 < maxIterations - of_nat iters" by simp
  then have "0 < \<lceil>maxIterations - of_nat iters\<rceil>" by simp
  moreover have "\<lceil>maxIterations - of_nat (iters + 1)\<rceil> = \<lceil>maxIterations - of_nat iters\<rceil> - 1"
    by (simp add: algebra_simps) linarith
  ultimately show "((productId, entityId, period, targetCurrency, maxIterations, tolerance,
           currentCost, current_total x2 productId entityId period, iters + 1, x2),
          (productId, entityId, period, targetCurrency, maxIterations, tolerance,
           prevCost, currentCost, iters, calc))
         \<in> measure (\<lambda>(productId, entityId, period, targetCurrency, maxIterations, tolerance,
                      prevCost, currentCost, iters, calc). nat \<lceil>maxIterations - of_nat iters\<rceil>)"
    by simp
qed

declare royalty_loop.simps [simp del]

definition resolveRoyaltyCycle ::
  "CostCalculator \<Rightarrow> string \<Rightarrow> string \<Rightarrow> string \<Rightarrow> string \<Rightarrow> rat \<Rightarrow> rat
     \<Rightarrow> error + convergence \<times> CostCalculator" where
  "resolveRoyaltyCycle calc productId entityId period targetCurrency maxIterations tolerance =
     (case royalty_loop productId entityId period targetCurrency maxIterations tolerance
             0 (current_total calc productId entityId period) 0 calc of
        Inl e \<Rightarrow> Inl e
      | Inr (prevCost, currentCost, iters, calc') \<Rightarrow>
          Inr (\<lparr>converged = (\<bar>currentCost - prevCost\<bar> \<le> tolerance), iterations = iters,
                finalCost = currentCost\<rparr>, calc'))"

text \<open>
  The run that the loop of \<^verbatim>\<open>resolveRoyaltyCycle\<close> follows, told apart from the loop:
  \<open>royalty_run \<dots> n\<close> is the calculator after \<open>n\<close> iterations (base cost, then the royalty
  rules), or the first error an iteration raised; \<open>cost_after \<dots> n\<close> is the total cost stored
  then, \<open>cost_before \<dots> n\<close> the one stored an iteration earlier (0 before the first, as
  \<^verbatim>\<open>prevCost\<close> starts), and \<open>cost_change \<dots> n\<close> the distance between the two.
\<close>

fun royalty_run ::
  "CostCalculator \<Rightarrow> string \<Rightarrow> string \<Rightarrow> string \<Rightarrow> string \<Rightarrow> nat \<Rightarrow> error + CostCalculator" where
  "royalty_run calc productId entityId period targetCurrency 0 = Inr calc"
| "royalty_run calc productId entityId period targetCurrency (Suc n) =
     (case royalty_run calc productId entityId period targetCurrency n of
        Inl e \<Rightarrow> Inl e
      | Inr calc_n \<Rightarrow> royalty_iteration calc_n productId entityId period targetCurrency)"

definition cost_after ::
  "CostCalculator \<Rightarrow> string \<Rightarrow> string \<Rightarrow> string \<Rightarrow> string \<Rightarrow> nat \<Rightarrow> rat" where
  "cost_after calc productId entityId period targetCurrency n =
     (case royalty_run calc productId entityId period targetCurrency n of
        Inl e \<Rightarrow> 0
      | Inr calc_n \<Rightarrow> current_total calc_n productId entityId period)"

definition cost_before ::
  "CostCalculator \<Rightarrow> string \<Rightarrow> string \<Rightarrow> string \<Rightarrow> string \<Rightarrow> nat \<Rightarrow> rat" where
  "cost_before calc productId entityId period targetCurrency n =
     (if n = 0 then 0 else cost_after calc productId entityId period targetCurrency (n - 1))"

definition cost_change ::
  "CostCalculator \<Rightarrow> string \<Rightarrow> string \<Rightarrow> string \<Rightarrow> string \<Rightarrow> nat \<Rightarrow> rat" where
  "cost_change calc productId entityId period targetCurrency n =
     \<bar>cost_after calc productId entityId period targetCurrency n
        - cost_before calc productId entityId period targetCurrency n\<bar>"


text \<open>
  The candidates among which \<^verbatim>\<open>calculateTransferPrice\<close> chooses, told apart from its loops.
  \<open>walk_path\<close> is the accumulated cost of one path, hop by hop (markup, then duty), with the
  list of the costs on the way; \<open>path_candidates\<close> are the paths of one manufacturing entity
  that has a stored cost, \<open>transfer_candidates\<close> those of all manufacturing entities, in the
  order of the two loops.  \<open>first_min cs i\<close> says that the \<open>i\<close>-th candidate has the least
  cost and is the first one with it.  \<open>take_better\<close> is the comparison
  \<^verbatim>\<open>transferCost < bestCost\<close> with its three assignments.
\<close>

definition walk_path ::
  "EntityManager \<Rightarrow> rat \<Rightarrow> string \<Rightarrow> (string, route_edge) step list \<Rightarrow> error + rat \<times> path_cost list" where
  "walk_path em sourceTotal mfgId path =
     apply_hops em (case path of [] \<Rightarrow> mfgId | s # _ \<Rightarrow> fst s) (drop 1 path)
       (sourceTotal, [\<lparr>pc_entity = mfgId, pc_cost = sourceTotal, pc_markup = None\<rparr>])"

definition path_candidates ::
  "CostCalculator \<Rightarrow> string \<Rightarrow> string \<Rightarrow> string \<Rightarrow> (string, route_edge) step list list
     \<Rightarrow> (rat \<times> path_cost list \<times> string) list" where
  "path_candidates calc productId period mfgId paths =
     (case getCost (costState calc) productId mfgId period of
        None \<Rightarrow> []
      | Some sourceCost \<Rightarrow>
          concat (map (\<lambda>path. case walk_path (entityManager calc) (totalCost sourceCost) mfgId path of
                                 Inl e \<Rightarrow> []
                               | Inr r \<Rightarrow> [(fst r, snd r, mfgId)]) paths))"

definition transfer_candidates ::
  "CostCalculator \<Rightarrow> string \<Rightarrow> string \<Rightarrow> string \<Rightarrow> (rat \<times> path_cost list \<times> string) list" where
  "transfer_candidates calc productId destEntityId period =
     concat (map (\<lambda>mfgEntity. path_candidates calc productId period (ent_id mfgEntity)
                    (findTransferPaths (entityManager calc) (ent_id mfgEntity) destEntityId))
                 (getManufacturingEntities (entityManager calc)))"


definition take_better :: "best_path \<Rightarrow> rat \<times> path_cost list \<times> string \<Rightarrow> best_path" where
  "take_better best cand =
     (if (case bestCost best of None \<Rightarrow> True | Some b \<Rightarrow> fst cand < b)
      then \<lparr>bestCost = Some (fst cand), bestPath = Some (fst (snd cand)),
            bestSourceEntity = Some (snd (snd cand))\<rparr>
      else best)"









section \<open>Bounded path search\<close>

definition path_ext ::
  "('n, 'm) graph \<Rightarrow> 'n \<Rightarrow> nat \<Rightarrow> 'n \<Rightarrow> ('n, 'm) step list \<Rightarrow> ('n, 'm) step list \<Rightarrow> bool" where
  "path_ext g t d current path rest =
     (valid_steps g current rest \<and> distinct (map fst rest)
      \<and> fst ` set rest \<inter> fst ` set path = {}
      \<and> fst (last (path @ rest)) = t \<and> length path + length rest \<le> d)"

lemma path_ext_Nil:
  "path \<noteq> [] \<Longrightarrow> fst (last path) = current \<Longrightarrow>
   path_ext g t d current path [] = (current = t \<and> length path \<le> d)"
  by (simp add: path_ext_def)

lemma path_ext_at_end:
  assumes "path \<noteq> []" "fst (last path) = t" "path_ext g t d t path rest"
  shows "rest = []"
proof (rule ccontr)
  assume "rest \<noteq> []"
  then have "fst (last rest) = t" "last rest \<in> set rest"
    using assms(3) by (auto simp: path_ext_def)
  moreover have "last path \<in> set path" using assms(1) by simp
  ultimately show False using assms(2,3) unfolding path_ext_def
    by (metis (no_types, lifting) disjoint_iff imageI)
qed

lemma path_ext_Cons:
  "path_ext g t d current path ((v, e) # rest) =
     (\<exists>edge. e = Some edge \<and> edge \<in> set (getNeighbors g current) \<and> fst edge = v
        \<and> v \<notin> fst ` set path
        \<and> path_ext g t d v (path @ [(v, e)]) rest)"
  by (cases e) (auto simp: path_ext_def)

lemma findAllPaths_dfs_set:
  "path \<noteq> [] \<Longrightarrow> fst (last path) = current \<Longrightarrow> visited = fst ` set path \<Longrightarrow>
   set (findAllPaths_dfs g t d current path visited) = {path @ rest | rest. path_ext g t d current path rest}"
proof (induction g t d current path visited rule: findAllPaths_dfs.induct)
  case (1 g t d current path visited)
  show ?case
  proof (cases "length path > d")
    case True
    then show ?thesis by (subst findAllPaths_dfs.simps) (auto simp: path_ext_def)
  next
    case short: False
    show ?thesis
    proof (cases "current = t")
      case True
      have "\<And>rest. path_ext g t d current path rest \<longleftrightarrow> rest = []"
        using path_ext_at_end[of path t g d] path_ext_Nil[of path current g t d] "1.prems" True short
        by auto
      then show ?thesis using True short by (subst findAllPaths_dfs.simps) simp
    next
      case False
      have IH: "\<And>edge. edge \<in> set (getNeighbors g current) \<Longrightarrow> fst edge \<notin> visited \<Longrightarrow>
          set (findAllPaths_dfs g t d (fst edge) (path @ [(fst edge, Some edge)]) (insert (fst edge) visited))
          = {(path @ [(fst edge, Some edge)]) @ rest | rest.
               path_ext g t d (fst edge) (path @ [(fst edge, Some edge)]) rest}"
        using "1.IH"[OF short False] "1.prems" by auto
      have L: "set (findAllPaths_dfs g t d current path visited) =
          (\<Union>edge \<in> {e \<in> set (getNeighbors g current). fst e \<notin> visited}.
             set (findAllPaths_dfs g t d (fst edge) (path @ [(fst edge, Some edge)]) (insert (fst edge) visited)))"
        using short False by (subst findAllPaths_dfs.simps) auto
      have R: "{path @ rest | rest. path_ext g t d current path rest} =
          (\<Union>edge \<in> {e \<in> set (getNeighbors g current). fst e \<notin> visited}.
             {(path @ [(fst edge, Some edge)]) @ rest | rest.
               path_ext g t d (fst edge) (path @ [(fst edge, Some edge)]) rest})" (is "?A = ?B")
      proof (rule set_eqI, rule iffI)
        fix p assume "p \<in> ?A"
        then obtain rest where p: "p = path @ rest" and ext: "path_ext g t d current path rest" by auto
        have "rest \<noteq> []" using ext path_ext_Nil[of path current g t d] "1.prems" False by auto
        then obtain v e rest' where rest: "rest = (v, e) # rest'" by (cases rest) auto
        from ext[unfolded rest path_ext_Cons] obtain edge where ed:
          "e = Some edge" "edge \<in> set (getNeighbors g current)" "fst edge = v" "v \<notin> fst ` set path"
          "path_ext g t d v (path @ [(v, e)]) rest'" by auto
        have "edge \<in> {e \<in> set (getNeighbors g current). fst e \<notin> visited}"
          using ed "1.prems" by simp
        moreover have "p \<in> {(path @ [(fst edge, Some edge)]) @ rest | rest.
               path_ext g t d (fst edge) (path @ [(fst edge, Some edge)]) rest}"
          using ed p rest by simp
        ultimately show "p \<in> ?B" by blast
      next
        fix p assume "p \<in> ?B"
        then obtain edge rest' where e: "edge \<in> set (getNeighbors g current)" "fst edge \<notin> visited"
          and p: "p = (path @ [(fst edge, Some edge)]) @ rest'"
          and ext: "path_ext g t d (fst edge) (path @ [(fst edge, Some edge)]) rest'" by auto
        have "path_ext g t d current path ((fst edge, Some edge) # rest')"
          unfolding path_ext_Cons using e ext "1.prems" by auto
        then show "p \<in> ?A" using p by auto
      qed
      show ?thesis unfolding L R using IH by auto
    qed
  qed
qed

lemma simple_path_iff_ext:
  "simple_path g s t p \<and> length p \<le> d \<longleftrightarrow> (\<exists>rest. p = [(s, None)] @ rest \<and> path_ext g t d s [(s, None)] rest)"
  by (cases p) (force simp: simple_path_def path_ext_def)+

text \<open>
  Claim C5, as the code has it.  \<open>findAllPaths g s t d\<close> returns exactly the simple paths from \<open>s\<close>
  to \<open>t\<close> that have at most \<open>d\<close> nodes, that is fewer than \<open>d\<close> hops: the test
  \<^verbatim>\<open>path.length > maxDepth\<close> counts the start node, and it precedes the test for the end node.
\<close>

theorem findAllPaths_simple_paths:
  "set (findAllPaths g s t d) = {p. simple_path g s t p \<and> Suc (hops p) \<le> d}"
proof -
  have "set (findAllPaths g s t d) = {[(s, None)] @ rest | rest. path_ext g t d s [(s, None)] rest}"
    unfolding findAllPaths_def by (rule findAllPaths_dfs_set) auto
  then have A: "set (findAllPaths g s t d) = {p. simple_path g s t p \<and> length p \<le> d}"
    using simple_path_iff_ext[of g s t _ d] by auto
  have B: "\<And>p. simple_path g s t p \<Longrightarrow> Suc (hops p) = length p"
    by (auto simp: simple_path_def hops_def split: list.splits)
  show ?thesis unfolding A using B by auto
qed

text \<open>
  Claim C5, as stated, fails.  In the graph with the single edge \<open>A \<rightarrow> B\<close> the path from \<open>A\<close> to
  \<open>B\<close> is simple and has one hop, and the search bounded by \<open>maxDepth = 1\<close> does not return it.
\<close>

theorem findAllPaths_misses_maxDepth_hops:
  "simple_path (addEdge ''A'' ''B'' () new_Graph) ''A'' ''B''
       [(''A'', None), (''B'', Some (''B'', ()))]
   \<and> hops [(''A'', None), (''B'', Some (''B'', ()))] \<le> 1
   \<and> [(''A'', None), (''B'', Some (''B'', ()))]
        \<notin> set (findAllPaths (addEdge ''A'' ''B'' () new_Graph) ''A'' ''B'' 1)"
  by (simp add: simple_path_def hops_def findAllPaths_def findAllPaths_dfs.simps addEdge_def
      addNode_def map_has_def getNeighbors_def new_Graph_def)



section \<open>Topological sort\<close>

subsection \<open>JS maps\<close>

lemma map_of_map_set: "map_of (map_set k v m) = (map_of m)(k \<mapsto> v)"
  by (induction m) auto

lemma keys_map_set_present: "k \<in> fst ` set m \<Longrightarrow> map fst (map_set k v m) = map fst m"
  by (induction m) auto

lemma keys_map_set_absent: "k \<notin> fst ` set m \<Longrightarrow> map fst (map_set k v m) = map fst m @ [k]"
  by (induction m) auto

lemma set_keys_map_set: "fst ` set (map_set k v m) = insert k (fst ` set m)"
  by (induction m) auto

subsection \<open>Well-formed graphs\<close>

lemma getNeighbors_entry:
  "distinct (map fst g) \<Longrightarrow> (u, es) \<in> set g \<Longrightarrow> getNeighbors g u = es"
  by (simp add: getNeighbors_def)

lemma getNeighbors_absent: "u \<notin> fst ` set g \<Longrightarrow> getNeighbors g u = []"
  by (simp add: getNeighbors_def map_of_eq_None_iff[THEN iffD2])

lemma edge_pairs_iff:
  "(u, v) \<in> set (edge_pairs g) \<longleftrightarrow> (\<exists>es. (u, es) \<in> set g \<and> v \<in> fst ` set es)"
  unfolding edge_pairs_def by (auto simp: image_iff) force+

lemma edge_rel_iff:
  "distinct (map fst g) \<Longrightarrow> (u, v) \<in> edge_rel g \<longleftrightarrow> v \<in> fst ` set (getNeighbors g u)"
proof
  assume d: "distinct (map fst g)" and "(u, v) \<in> edge_rel g"
  then obtain es where "(u, es) \<in> set g" "v \<in> fst ` set es"
    unfolding edge_rel_def edge_pairs_iff by blast
  then show "v \<in> fst ` set (getNeighbors g u)" using getNeighbors_entry[OF d] by auto
next
  assume d: "distinct (map fst g)" and v: "v \<in> fst ` set (getNeighbors g u)"
  then have "map_of g u = Some (getNeighbors g u)"
    by (cases "map_of g u") (auto simp: getNeighbors_def)
  then have "(u, getNeighbors g u) \<in> set g" by (rule map_of_SomeD)
  then show "(u, v) \<in> edge_rel g" using v
    unfolding edge_rel_def edge_pairs_iff by blast
qed

lemma edge_rel_source: "(u, v) \<in> edge_rel g \<Longrightarrow> u \<in> set (getNodes g)"
  unfolding edge_rel_def edge_pairs_iff getNodes_def by force

lemma edge_rel_target: "wf_graph g \<Longrightarrow> (u, v) \<in> edge_rel g \<Longrightarrow> v \<in> set (getNodes g)"
  by (force simp: wf_graph_def edge_rel_def)

lemma finite_edge_rel: "finite (edge_rel g)"
  by (simp add: edge_rel_def)

lemma wf_graph_new: "wf_graph new_Graph"
  by (simp add: wf_graph_def new_Graph_def edge_pairs_def getNodes_def)

lemma edge_pairs_append: "edge_pairs (g @ h) = edge_pairs g @ edge_pairs h"
  by (simp add: edge_pairs_def)

lemma map_set_absent_append: "k \<notin> fst ` set m \<Longrightarrow> map_set k v m = m @ [(k, v)]"
  by (induction m) auto

lemma wf_graph_addNode: "wf_graph g \<Longrightarrow> wf_graph (addNode n g)"
  by (auto simp: wf_graph_def addNode_def map_has_def map_set_absent_append edge_pairs_append
      getNodes_def edge_pairs_def)

lemma nodes_addNode: "set (getNodes (addNode n g)) = insert n (set (getNodes g))"
  by (auto simp: addNode_def map_has_def getNodes_def set_keys_map_set)

lemma edge_pairs_map_set_subset:
  "set (edge_pairs (map_set k es g)) \<subseteq> set (edge_pairs g) \<union> {k} \<times> fst ` set es"
  by (induction g) (auto simp: edge_pairs_def)

lemma edge_pairs_getNeighbors: "(u, e) \<in> {u} \<times> fst ` set (getNeighbors g u) \<Longrightarrow> (u, e) \<in> set (edge_pairs g)"
  unfolding edge_pairs_iff
  by (cases "map_of g u") (auto simp: getNeighbors_def dest!: map_of_SomeD)

lemma wf_graph_addEdge: assumes "wf_graph g" shows "wf_graph (addEdge u v md g)"
proof -
  let ?g2 = "addNode v (addNode u g)"
  have wf2: "wf_graph ?g2" using assms by (simp add: wf_graph_addNode)
  have u: "u \<in> fst ` set ?g2" and v: "v \<in> set (getNodes ?g2)"
    using nodes_addNode[of v "addNode u g"] nodes_addNode[of u g] by (auto simp: getNodes_def)
  have keys: "map fst (map_set u (getNeighbors ?g2 u @ [(v, md)]) ?g2) = map fst ?g2"
    using u by (rule keys_map_set_present)
  have "snd ` set (edge_pairs (map_set u (getNeighbors ?g2 u @ [(v, md)]) ?g2))
        \<subseteq> snd ` (set (edge_pairs ?g2) \<union> {u} \<times> fst ` set (getNeighbors ?g2 u @ [(v, md)]))"
    using edge_pairs_map_set_subset[of u "getNeighbors ?g2 u @ [(v, md)]" ?g2] by (rule image_mono)
  also have "\<dots> \<subseteq> set (getNodes ?g2)"
    using wf2 v edge_pairs_getNeighbors[of u _ ?g2] by (force simp: wf_graph_def)
  finally show ?thesis using wf2 keys
    by (simp add: wf_graph_def addEdge_def Let_def getNodes_def)
qed

definition rem_in :: "('n, 'm) graph \<Rightarrow> 'n set \<Rightarrow> 'n \<Rightarrow> nat" where
  "rem_in g R v = length (filter (\<lambda>e. snd e = v \<and> fst e \<notin> R) (edge_pairs g))"

definition incr :: "'n \<Rightarrow> ('n \<times> int) list \<Rightarrow> ('n \<times> int) list" where
  "incr v m = map_set v ((case map_of m v of None \<Rightarrow> 0 | Some d \<Rightarrow> d) + 1) m"

lemma fold_zero_init:
  "distinct (map fst m @ ns) \<Longrightarrow>
   fold (\<lambda>node inDegree. map_set node 0 inDegree) ns m = m @ map (\<lambda>n. (n, 0::int)) ns"
proof (induction ns arbitrary: m)
  case Nil
  then show ?case by simp
next
  case (Cons n ns)
  have "n \<notin> fst ` set m" using Cons.prems by auto
  then have ms: "map_set n (0::int) m = m @ [(n, 0)]" by (rule map_set_absent_append)
  have "distinct (map fst (m @ [(n, 0::int)]) @ ns)" using Cons.prems by auto
  from Cons.IH[OF this] show ?case by (simp add: ms)
qed

lemma fold_incr:
  "set vs \<subseteq> fst ` set m \<Longrightarrow>
   map fst (fold incr vs m) = map fst m
   \<and> (\<forall>v. map_of (fold incr vs m) v = map_option (\<lambda>d. d + int (count_list vs v)) (map_of m v))"
proof (induction vs arbitrary: m)
  case Nil
  then show ?case by (simp add: option.map_ident)
next
  case (Cons a vs)
  have a: "a \<in> fst ` set m" using Cons.prems by simp
  then obtain d where d: "map_of m a = Some d"
    by (metis domD dom_map_of_conv_image_fst)
  have keys: "map fst (incr a m) = map fst m" using a by (simp add: incr_def keys_map_set_present)
  then have sub: "set vs \<subseteq> fst ` set (incr a m)" using Cons.prems
    by (metis list.set_map set_subset_Cons subset_trans)
  have mo: "map_of (incr a m) = (map_of m)(a \<mapsto> d + 1)" by (simp add: incr_def map_of_map_set d)
  from Cons.IH[OF sub] show ?case
    by (auto simp: keys mo d option.map_comp comp_def split: option.splits)
qed

lemma fold_entries_targets:
  "fold (\<lambda>entry acc. fold (\<lambda>edge acc. incr (fst edge) acc) (snd entry) acc) g m
   = fold incr (map snd (edge_pairs g)) m"
proof (induction g arbitrary: m)
  case Nil
  then show ?case by (simp add: edge_pairs_def)
next
  case (Cons entry g)
  have "edge_pairs (entry # g) = map (\<lambda>edge. (fst entry, fst edge)) (snd entry) @ edge_pairs g"
    by (simp add: edge_pairs_def)
  then show ?case using Cons.IH by (simp add: fold_map comp_def)
qed

lemma fold_nodes_entries:
  assumes "distinct (map fst g)"
  shows "fold (\<lambda>node acc. f (getNeighbors g node) acc) (getNodes g) m
         = fold (\<lambda>entry acc. f (snd entry) acc) g m"
proof -
  have "fold (\<lambda>node acc. f (getNeighbors g node) acc) (map fst g) m
        = fold (\<lambda>entry acc. f (getNeighbors g (fst entry)) acc) g m"
    by (simp add: fold_map comp_def)
  also have "\<dots> = fold (\<lambda>entry acc. f (snd entry) acc) g m"
    by (rule fold_cong) (auto simp: getNeighbors_entry[OF assms])
  finally show ?thesis by (simp add: getNodes_def)
qed

lemma rem_in_empty: "int (rem_in g {} v) = int (count_list (map snd (edge_pairs g)) v)"
  by (induction "edge_pairs g") (auto simp: rem_in_def count_list_eq_length_filter filter_map comp_def
      intro!: arg_cong[where f=length] filter_cong)

lemma count_inDegree_spec:
  assumes "wf_graph g"
  shows "map fst (count_inDegree g) = getNodes g"
    and "v \<in> set (getNodes g) \<Longrightarrow> map_of (count_inDegree g) v = Some (int (rem_in g {} v))"
proof -
  let ?init = "map (\<lambda>n. (n, 0::int)) (getNodes g)"
  have d: "distinct (map fst g)" using assms by (simp add: wf_graph_def)
  have init: "fold (\<lambda>node inDegree. map_set node 0 inDegree) (getNodes g) [] = ?init"
    using fold_zero_init[of "[]" "getNodes g"] d by (simp add: getNodes_def)
  have cnt: "count_inDegree g = fold incr (map snd (edge_pairs g)) ?init"
    unfolding count_inDegree_def init
    using fold_nodes_entries[OF d, of "\<lambda>es acc. fold (\<lambda>edge acc. incr (fst edge) acc) es acc" ?init]
    by (simp add: incr_def[abs_def] fold_entries_targets[unfolded incr_def[abs_def]])
  have sub: "set (map snd (edge_pairs g)) \<subseteq> fst ` set ?init"
    using assms by (auto simp: wf_graph_def image_iff)
  from fold_incr[OF sub] have
    k: "map fst (count_inDegree g) = map fst ?init" and
    m: "\<And>v. map_of (count_inDegree g) v
          = map_option (\<lambda>d. d + int (count_list (map snd (edge_pairs g)) v)) (map_of ?init v)"
    unfolding cnt by auto
  show "map fst (count_inDegree g) = getNodes g" using k by (simp add: comp_def)
  assume "v \<in> set (getNodes g)"
  then have "map_of ?init v = Some 0"
    by (induction "getNodes g") (auto simp: map_of_map_restrict restrict_map_def)
  then show "map_of (count_inDegree g) v = Some (int (rem_in g {} v))"
    using m[of v] by (simp add: rem_in_empty)
qed

lemma fold_release:
  assumes "\<forall>v \<in> set nbs. \<exists>d. map_of m v = Some d \<and> int (count_list nbs v) \<le> d"
  shows "\<exists>zs. snd (fold (\<lambda>nb s. release s nb) nbs (m, q)) = q @ zs
           \<and> map fst (fst (fold (\<lambda>nb s. release s nb) nbs (m, q))) = map fst m
           \<and> (\<forall>v. map_of (fst (fold (\<lambda>nb s. release s nb) nbs (m, q))) v
                  = map_option (\<lambda>d. d - int (count_list nbs v)) (map_of m v))
           \<and> distinct zs
           \<and> set zs = {v \<in> set nbs. map_of m v = Some (int (count_list nbs v))}"
  using assms
proof (induction nbs arbitrary: m q)
  case Nil
  then show ?case by (simp add: option.map_ident)
next
  case (Cons nb nbs)
  let ?F = "\<lambda>nbs s. fold (\<lambda>nb s. release s nb) nbs s"
  obtain d where d: "map_of m nb = Some d" and dge: "int (count_list nbs nb) + 1 \<le> d"
    using Cons.prems by auto
  let ?m1 = "map_set nb (d - 1) m"
  let ?q1 = "if d - 1 = 0 then q @ [nb] else q"
  have rel: "release (m, q) nb = (?m1, ?q1)" by (simp add: release_def d)
  have mo1: "map_of ?m1 = (map_of m)(nb \<mapsto> d - 1)" by (rule map_of_map_set)
  have nbkey: "nb \<in> fst ` set m" using d by (metis domI dom_map_of_conv_image_fst)
  have keys1: "map fst ?m1 = map fst m" using nbkey by (rule keys_map_set_present)
  have pre: "\<forall>v \<in> set nbs. \<exists>d'. map_of ?m1 v = Some d' \<and> int (count_list nbs v) \<le> d'"
  proof
    fix v assume v: "v \<in> set nbs"
    show "\<exists>d'. map_of ?m1 v = Some d' \<and> int (count_list nbs v) \<le> d'"
    proof (cases "v = nb")
      case True
      then show ?thesis using dge by (simp add: mo1)
    next
      case False
      then show ?thesis using Cons.prems v by (auto simp: mo1)
    qed
  qed
  from Cons.IH[OF pre, of ?q1] obtain zs where
    z1: "snd (?F nbs (?m1, ?q1)) = ?q1 @ zs" and
    z2: "map fst (fst (?F nbs (?m1, ?q1))) = map fst ?m1" and
    z3: "\<And>v. map_of (fst (?F nbs (?m1, ?q1))) v = map_option (\<lambda>d. d - int (count_list nbs v)) (map_of ?m1 v)" and
    z4: "distinct zs" and
    z5: "set zs = {v \<in> set nbs. map_of ?m1 v = Some (int (count_list nbs v))}"
    by blast
  have unfold: "?F (nb # nbs) (m, q) = ?F nbs (?m1, ?q1)" by (simp add: rel)
  let ?zs = "(if d - 1 = 0 then [nb] else []) @ zs"
  have c1: "snd (?F (nb # nbs) (m, q)) = q @ ?zs"
    unfolding unfold z1 by simp
  have c2: "map fst (fst (?F (nb # nbs) (m, q))) = map fst m"
    unfolding unfold using z2 keys1 by simp
  have c3: "\<forall>v. map_of (fst (?F (nb # nbs) (m, q))) v
              = map_option (\<lambda>d. d - int (count_list (nb # nbs) v)) (map_of m v)"
    unfolding unfold using z3 d by (auto simp: mo1 split: option.splits)
  have notin: "d - 1 = 0 \<Longrightarrow> nb \<notin> set nbs"
  proof -
    assume "d - 1 = 0"
    then have "count_list nbs nb = 0" using dge by simp
    then show "nb \<notin> set nbs" by (simp add: count_list_0_iff)
  qed
  have c4: "distinct ?zs" using z4 z5 notin by auto
  have zmem: "\<And>v. v \<in> set zs \<longleftrightarrow> v \<in> set nbs \<and> map_of ?m1 v = Some (int (count_list nbs v))"
    unfolding z5 by simp
  have c5: "set ?zs = {v \<in> set (nb # nbs). map_of m v = Some (int (count_list (nb # nbs) v))}"
  proof (rule set_eqI)
    fix v
    show "v \<in> set ?zs \<longleftrightarrow> v \<in> {v \<in> set (nb # nbs). map_of m v = Some (int (count_list (nb # nbs) v))}"
    proof (cases "v = nb")
      case False
      then show ?thesis by (simp add: zmem mo1)
    next
      case True
      show ?thesis
      proof (cases "d - 1 = 0")
        case z: True
        then have "count_list nbs nb = 0" using notin by simp
        then show ?thesis using True z d by simp
      next
        case nz: False
        have "nb \<in> set zs \<longleftrightarrow> d = int (count_list nbs nb) + 1"
        proof
          assume "nb \<in> set zs"
          then have "d - 1 = int (count_list nbs nb)" by (simp add: zmem map_of_map_set)
          then show "d = int (count_list nbs nb) + 1" by simp
        next
          assume e: "d = int (count_list nbs nb) + 1"
          then have "count_list nbs nb \<noteq> 0" using nz by simp
          then have "nb \<in> set nbs" by (simp add: count_list_0_iff)
          then show "nb \<in> set zs" using e by (simp add: zmem map_of_map_set)
        qed
        then show ?thesis using True nz d by (simp add: add.commute)
      qed
    qed
  qed
  show ?case using c1 c2 c3 c4 c5 by blast
qed

definition topo :: "('n, 'm) graph \<Rightarrow> 'n list \<Rightarrow> bool" where
  "topo g result = (\<forall>xs v ys. result = xs @ v # ys \<longrightarrow> (\<forall>u. (u, v) \<in> edge_rel g \<longrightarrow> u \<in> set xs))"

definition kahn_inv :: "('n, 'm) graph \<Rightarrow> ('n \<times> int) list \<Rightarrow> 'n list \<Rightarrow> 'n list \<Rightarrow> bool" where
  "kahn_inv g inDegree queue result =
     (map fst inDegree = getNodes g
      \<and> distinct (result @ queue) \<and> set (result @ queue) \<subseteq> set (getNodes g)
      \<and> (\<forall>v \<in> set (getNodes g). map_of inDegree v = Some (int (rem_in g (set result) v)))
      \<and> (\<forall>v \<in> set (getNodes g). v \<in> set (result @ queue) \<longleftrightarrow> rem_in g (set result) v = 0)
      \<and> topo g result)"

lemma rem_in_zero_iff: "rem_in g R v = 0 \<longleftrightarrow> (\<forall>u. (u, v) \<in> edge_rel g \<longrightarrow> u \<in> R)"
  by (auto simp: rem_in_def edge_rel_def filter_empty_conv)

lemma edges_out_of_absent: "node \<notin> fst ` set g \<Longrightarrow> filter (\<lambda>e. fst e = node) (edge_pairs g) = []"
  by (auto simp: filter_empty_conv edge_pairs_iff) force

lemma edges_out_of:
  "distinct (map fst g) \<Longrightarrow>
   filter (\<lambda>e. fst e = node) (edge_pairs g) = map (\<lambda>v. (node, v)) (map fst (getNeighbors g node))"
proof (induction g)
  case Nil
  then show ?case by (simp add: edge_pairs_def getNeighbors_def)
next
  case (Cons entry g)
  have ep: "edge_pairs (entry # g) = map (\<lambda>edge. (fst entry, fst edge)) (snd entry) @ edge_pairs g"
    by (simp add: edge_pairs_def)
  show ?case
  proof (cases "fst entry = node")
    case True
    then have "node \<notin> fst ` set g" using Cons.prems by auto
    then have "filter (\<lambda>e. fst e = node) (edge_pairs g) = []" by (rule edges_out_of_absent)
    moreover have "getNeighbors (entry # g) node = snd entry"
      using True by (cases entry) (simp add: getNeighbors_def)
    ultimately show ?thesis using True by (simp add: ep filter_map comp_def)
  next
    case False
    then have "getNeighbors (entry # g) node = getNeighbors g node"
      by (cases entry) (simp add: getNeighbors_def)
    then show ?thesis using False Cons by (simp add: ep filter_map comp_def)
  qed
qed

lemma rem_in_insert:
  assumes "distinct (map fst g)" "node \<notin> R"
  shows "rem_in g (insert node R) v + count_list (map fst (getNeighbors g node)) v = rem_in g R v"
proof -
  let ?E = "edge_pairs g"
  have "length (filter (\<lambda>e. snd e = v \<and> fst e \<notin> R) ?E)
        = length (filter (\<lambda>e. fst e \<noteq> node) (filter (\<lambda>e. snd e = v \<and> fst e \<notin> R) ?E))
          + length (filter (\<lambda>e. fst e = node) (filter (\<lambda>e. snd e = v \<and> fst e \<notin> R) ?E))"
    using sum_length_filter_compl[of "\<lambda>e. fst e \<noteq> node" "filter (\<lambda>e. snd e = v \<and> fst e \<notin> R) ?E"]
    by simp
  moreover have "filter (\<lambda>e. fst e \<noteq> node) (filter (\<lambda>e. snd e = v \<and> fst e \<notin> R) ?E)
        = filter (\<lambda>e. snd e = v \<and> fst e \<notin> insert node R) ?E"
    by (auto intro: filter_cong)
  moreover have "filter (\<lambda>e. fst e = node) (filter (\<lambda>e. snd e = v \<and> fst e \<notin> R) ?E)
        = filter (\<lambda>e. snd e = v) (filter (\<lambda>e. fst e = node) ?E)"
    using assms(2) by (auto intro: filter_cong)
  moreover have "length (filter (\<lambda>e. snd e = v) (filter (\<lambda>e. fst e = node) ?E))
        = count_list (map fst (getNeighbors g node)) v"
    unfolding edges_out_of[OF assms(1)]
    by (simp add: count_list_eq_length_filter filter_map comp_def eq_commute)
  ultimately show ?thesis by (simp add: rem_in_def)
qed

lemma kahn_inv_init:
  assumes "wf_graph g"
  shows "kahn_inv g (count_inDegree g) (map fst (filter (\<lambda>p. snd p = 0) (count_inDegree g))) []"
proof -
  let ?m = "count_inDegree g"
  have d: "distinct (map fst g)" using assms by (simp add: wf_graph_def)
  have keys: "map fst ?m = getNodes g" by (rule count_inDegree_spec(1)[OF assms])
  have dm: "distinct (map fst ?m)" using keys d by (simp add: getNodes_def)
  have val: "\<And>v. v \<in> set (getNodes g) \<Longrightarrow> map_of ?m v = Some (int (rem_in g {} v))"
    by (rule count_inDegree_spec(2)[OF assms])
  have q: "\<And>v. v \<in> set (map fst (filter (\<lambda>p. snd p = 0) ?m)) \<longleftrightarrow> map_of ?m v = Some 0"
    using dm by (auto simp: image_iff)
  have "distinct (map fst (filter (\<lambda>p. snd p = 0) ?m))" using dm by (rule distinct_map_filter)
  moreover have "set (map fst (filter (\<lambda>p. snd p = 0) ?m)) \<subseteq> set (getNodes g)"
    using keys by (metis (no_types, lifting) filter_is_subset image_mono list.set_map)
  moreover have "\<forall>v \<in> set (getNodes g). v \<in> set (map fst (filter (\<lambda>p. snd p = 0) ?m)) \<longleftrightarrow> rem_in g {} v = 0"
    using q val by simp
  ultimately show ?thesis using keys val by (simp add: kahn_inv_def topo_def)
qed

lemma topo_snoc:
  assumes "topo g result" "\<forall>u. (u, node) \<in> edge_rel g \<longrightarrow> u \<in> set result"
  shows "topo g (result @ [node])"
  unfolding topo_def
proof (intro allI impI)
  fix xs v ys u
  assume eq: "result @ [node] = xs @ v # ys" and e: "(u, v) \<in> edge_rel g"
  show "u \<in> set xs"
  proof (cases ys rule: rev_cases)
    case Nil
    then have "xs = result" "v = node" using eq by auto
    then show ?thesis using assms(2) e by simp
  next
    case (snoc ys' y)
    then have "result = xs @ v # ys'" using eq by simp
    then show ?thesis using assms(1) e unfolding topo_def by blast
  qed
qed

lemma kahn_inv_step:
  assumes wf: "wf_graph g"
    and inv: "kahn_inv g inDegree (node # rest) result"
  shows "kahn_inv g
           (fst (fold (\<lambda>edge s. release s (fst edge)) (getNeighbors g node) (inDegree, rest)))
           (snd (fold (\<lambda>edge s. release s (fst edge)) (getNeighbors g node) (inDegree, rest)))
           (result @ [node])"
proof -
  let ?nbs = "map fst (getNeighbors g node)"
  let ?s = "fold (\<lambda>nb s. release s nb) ?nbs (inDegree, rest)"
  let ?R = "set result"
  let ?R' = "set (result @ [node])"
  have fm: "fold (\<lambda>edge s. release s (fst edge)) (getNeighbors g node) (inDegree, rest) = ?s"
    by (simp add: fold_map comp_def)
  have d: "distinct (map fst g)" using wf by (simp add: wf_graph_def)
  have keys: "map fst inDegree = getNodes g"
    and dist: "distinct (result @ node # rest)"
    and sub: "set (result @ node # rest) \<subseteq> set (getNodes g)"
    and val: "\<And>v. v \<in> set (getNodes g) \<Longrightarrow> map_of inDegree v = Some (int (rem_in g ?R v))"
    and mem: "\<And>v. v \<in> set (getNodes g) \<Longrightarrow> v \<in> set (result @ node # rest) \<longleftrightarrow> rem_in g ?R v = 0"
    and tp: "topo g result"
    using inv unfolding kahn_inv_def by auto
  have node_notin: "node \<notin> ?R" using dist by auto
  have split: "\<And>v. rem_in g ?R' v + count_list ?nbs v = rem_in g ?R v"
    using rem_in_insert[OF d node_notin] by simp
  have nbs_nodes: "set ?nbs \<subseteq> set (getNodes g)"
  proof
    fix v assume "v \<in> set ?nbs"
    then have "(node, v) \<in> edge_rel g" using edge_rel_iff[OF d] by auto
    then show "v \<in> set (getNodes g)" using wf by (rule edge_rel_target[rotated])
  qed
  have pre: "\<forall>v \<in> set ?nbs. \<exists>dg. map_of inDegree v = Some dg \<and> int (count_list ?nbs v) \<le> dg"
  proof
    fix v assume "v \<in> set ?nbs"
    then have "map_of inDegree v = Some (int (rem_in g ?R v))" using nbs_nodes val by auto
    moreover have "count_list ?nbs v \<le> rem_in g ?R v" using split[of v] by linarith
    ultimately show "\<exists>dg. map_of inDegree v = Some dg \<and> int (count_list ?nbs v) \<le> dg" by simp
  qed
  from fold_release[OF pre, of rest] obtain zs where
    q': "snd ?s = rest @ zs" and
    k': "map fst (fst ?s) = map fst inDegree" and
    m': "\<And>v. map_of (fst ?s) v = map_option (\<lambda>dg. dg - int (count_list ?nbs v)) (map_of inDegree v)" and
    dz: "distinct zs" and
    sz: "set zs = {v \<in> set ?nbs. map_of inDegree v = Some (int (count_list ?nbs v))}"
    by blast
  have zmem: "\<And>v. v \<in> set zs \<longleftrightarrow> v \<in> set ?nbs \<and> rem_in g ?R' v = 0"
  proof -
    fix v
    show "v \<in> set zs \<longleftrightarrow> v \<in> set ?nbs \<and> rem_in g ?R' v = 0"
    proof (cases "v \<in> set ?nbs")
      case False
      then show ?thesis using sz by simp
    next
      case True
      then have "map_of inDegree v = Some (int (rem_in g ?R v))" using nbs_nodes val by auto
      then show ?thesis using True sz split[of v] by auto
    qed
  qed
  have znew: "\<And>v. v \<in> set zs \<Longrightarrow> v \<notin> set (result @ node # rest)"
  proof -
    fix v assume v: "v \<in> set zs"
    then have "v \<in> set ?nbs" "rem_in g ?R' v = 0" using zmem by auto
    then have "count_list ?nbs v \<noteq> 0" by (simp add: count_list_0_iff)
    then have "rem_in g ?R v \<noteq> 0" using split[of v] by linarith
    moreover have "v \<in> set (getNodes g)" using \<open>v \<in> set ?nbs\<close> nbs_nodes by auto
    ultimately show "v \<notin> set (result @ node # rest)" using mem[of v] by simp
  qed
  have c1: "map fst (fst ?s) = getNodes g" using k' keys by simp
  have c2: "distinct ((result @ [node]) @ snd ?s)"
    unfolding q' using dist dz znew by auto
  have c3: "set ((result @ [node]) @ snd ?s) \<subseteq> set (getNodes g)"
    unfolding q' using sub sz nbs_nodes by auto
  have c4: "\<forall>v \<in> set (getNodes g). map_of (fst ?s) v = Some (int (rem_in g ?R' v))"
  proof
    fix v assume "v \<in> set (getNodes g)"
    then have "map_of inDegree v = Some (int (rem_in g ?R v))" by (rule val)
    then show "map_of (fst ?s) v = Some (int (rem_in g ?R' v))"
      using m'[of v] split[of v] by simp
  qed
  have c5: "\<forall>v \<in> set (getNodes g). v \<in> set ((result @ [node]) @ snd ?s) \<longleftrightarrow> rem_in g ?R' v = 0"
  proof
    fix v assume vn: "v \<in> set (getNodes g)"
    show "v \<in> set ((result @ [node]) @ snd ?s) \<longleftrightarrow> rem_in g ?R' v = 0"
    proof
      assume "v \<in> set ((result @ [node]) @ snd ?s)"
      then consider "v \<in> set (result @ node # rest)" | "v \<in> set zs" unfolding q' by auto
      then show "rem_in g ?R' v = 0"
      proof cases
        case 1
        then have "rem_in g ?R v = 0" using mem[OF vn] by simp
        then show ?thesis using split[of v] by linarith
      next
        case 2
        then show ?thesis using zmem by simp
      qed
    next
      assume z: "rem_in g ?R' v = 0"
      show "v \<in> set ((result @ [node]) @ snd ?s)"
      proof (cases "rem_in g ?R v = 0")
        case True
        then have "v \<in> set (result @ node # rest)" using mem[OF vn] by simp
        then show ?thesis unfolding q' by auto
      next
        case False
        then have "count_list ?nbs v \<noteq> 0" using split[of v] z by linarith
        then have "v \<in> set ?nbs" by (simp add: count_list_0_iff)
        then have "v \<in> set zs" using zmem z by simp
        then show ?thesis unfolding q' by auto
      qed
    qed
  qed
  have "node \<in> set (getNodes g)" using sub by auto
  then have "rem_in g ?R node = 0" using mem[of node] by auto
  then have "\<forall>u. (u, node) \<in> edge_rel g \<longrightarrow> u \<in> set result" by (simp add: rem_in_zero_iff)
  then have c6: "topo g (result @ [node])" using tp by (rule topo_snoc[rotated])
  show ?thesis unfolding fm kahn_inv_def using c1 c2 c3 c4 c5 c6 by blast
qed

lemma kahn_loop_inv:
  "wf_graph g \<Longrightarrow> kahn_inv g inDegree queue result \<Longrightarrow>
   \<exists>inDegree'. kahn_inv g inDegree' [] (kahn_loop g inDegree queue result)"
proof (induction g inDegree queue result rule: kahn_loop.induct)
  case (1 g inDegree queue result)
  show ?case
  proof (cases queue)
    case Nil
    then show ?thesis using "1.prems" by (subst kahn_loop.simps) auto
  next
    case (Cons node rest)
    let ?s = "fold (\<lambda>edge s. release s (fst edge)) (getNeighbors g node) (inDegree, rest)"
    have "kahn_inv g (fst ?s) (snd ?s) (result @ [node])"
      using kahn_inv_step[OF "1.prems"(1)] "1.prems"(2) Cons by simp
    from "1.IH"[OF Cons refl "1.prems"(1) this]
    show ?thesis using Cons by (subst kahn_loop.simps) (simp add: Let_def)
  qed
qed

definition kahn_result :: "('n, 'm) graph \<Rightarrow> 'n list" where
  "kahn_result g =
     kahn_loop g (count_inDegree g) (map fst (filter (\<lambda>p. snd p = 0) (count_inDegree g))) []"

lemma topologicalSort_kahn_result:
  "topologicalSort g =
     (if length (kahn_result g) \<noteq> length (getNodes g) then Inl CycleDetected else Inr (kahn_result g))"
  by (simp add: topologicalSort_def kahn_result_def Let_def)

lemma kahn_result_props:
  assumes "wf_graph g"
  shows "distinct (kahn_result g)"
    and "set (kahn_result g) \<subseteq> set (getNodes g)"
    and "topo g (kahn_result g)"
    and "v \<in> set (getNodes g) \<Longrightarrow>
           v \<in> set (kahn_result g) \<longleftrightarrow> (\<forall>u. (u, v) \<in> edge_rel g \<longrightarrow> u \<in> set (kahn_result g))"
proof -
  obtain inDegree' where inv: "kahn_inv g inDegree' [] (kahn_result g)"
    using kahn_loop_inv[OF assms kahn_inv_init[OF assms]] unfolding kahn_result_def by blast
  show "distinct (kahn_result g)" "set (kahn_result g) \<subseteq> set (getNodes g)" "topo g (kahn_result g)"
    using inv by (simp_all add: kahn_inv_def)
  assume "v \<in> set (getNodes g)"
  then show "v \<in> set (kahn_result g) \<longleftrightarrow> (\<forall>u. (u, v) \<in> edge_rel g \<longrightarrow> u \<in> set (kahn_result g))"
    using inv by (simp add: kahn_inv_def rem_in_zero_iff)
qed

lemma kahn_complete:
  assumes wf: "wf_graph g" and ac: "acyclic (edge_rel g)"
  shows "set (kahn_result g) = set (getNodes g)"
proof (rule ccontr)
  assume ne: "set (kahn_result g) \<noteq> set (getNodes g)"
  have sub: "set (kahn_result g) \<subseteq> set (getNodes g)" by (rule kahn_result_props(2)[OF wf])
  then obtain x where x: "x \<in> set (getNodes g) - set (kahn_result g)" using ne by auto
  have "wf (edge_rel g)" using finite_edge_rel ac by (rule finite_acyclic_wf)
  from wfE_min[OF this x] obtain z where
    z: "z \<in> set (getNodes g) - set (kahn_result g)" and
    zmin: "\<And>y. (y, z) \<in> edge_rel g \<Longrightarrow> y \<notin> set (getNodes g) - set (kahn_result g)"
    by blast
  have "\<forall>u. (u, z) \<in> edge_rel g \<longrightarrow> u \<in> set (kahn_result g)"
    using zmin edge_rel_source by fastforce
  then have "z \<in> set (kahn_result g)" using kahn_result_props(4)[OF wf, of z] z by simp
  then show False using z by simp
qed

lemma topo_precedes:
  assumes "topo g r" "(u, v) \<in> edge_rel g" "v \<in> set r"
  shows "precedes u v r"
proof -
  obtain xs ys where r: "r = xs @ v # ys" using assms(3) by (meson split_list)
  then have u: "u \<in> set xs" using assms(1,2) unfolding topo_def by blast
  then have "dropWhile (\<lambda>x. x \<noteq> u) r = dropWhile (\<lambda>x. x \<noteq> u) xs @ v # ys"
    unfolding r by (simp add: dropWhile_append1)
  moreover have "dropWhile (\<lambda>x. x \<noteq> u) xs \<noteq> []" using u by (simp add: dropWhile_eq_Nil_conv)
  ultimately have "v \<in> set (tl (dropWhile (\<lambda>x. x \<noteq> u) r))" by simp
  then show ?thesis using u r by (simp add: precedes_def)
qed

lemma takeWhile_neq_prefix: "a \<notin> set xs \<Longrightarrow> takeWhile (\<lambda>x. x \<noteq> a) (xs @ a # ys) = xs"
  by (induction xs) auto

lemma takeWhile_neq_short:
  "b \<in> set xs \<Longrightarrow> length (takeWhile (\<lambda>x. x \<noteq> b) (xs @ zs)) < length xs"
  by (induction xs) auto

lemma topo_acyclic:
  assumes "topo g r" "distinct r" "snd ` edge_rel g \<subseteq> set r"
  shows "acyclic (edge_rel g)"
proof -
  let ?f = "\<lambda>v. length (takeWhile (\<lambda>x. x \<noteq> v) r)"
  have "\<And>a b. (a, b) \<in> (edge_rel g)\<inverse> \<Longrightarrow> ?f b < ?f a"
  proof -
    fix a b assume "(a, b) \<in> (edge_rel g)\<inverse>"
    then have e: "(b, a) \<in> edge_rel g" by simp
    then have "a \<in> set r" using assms(3) by force
    then obtain xs ys where r: "r = xs @ a # ys" by (meson split_list)
    then have b: "b \<in> set xs" using assms(1) e unfolding topo_def by blast
    have "a \<notin> set xs" using assms(2) r by auto
    then have fa: "?f a = length xs" unfolding r by (simp add: takeWhile_neq_prefix)
    have "?f b < length xs" unfolding r using b by (rule takeWhile_neq_short)
    then show "?f b < ?f a" using fa by simp
  qed
  then have "acyclic ((edge_rel g)\<inverse>)" by (rule acyclicI_order)
  then show ?thesis by simp
qed

text \<open>
  Claim C3.  On a graph without a cycle \<open>topologicalSort\<close> returns a list (it does not throw),
  the list is as long as the list of nodes, and for every edge \<open>(u, v)\<close> the node \<open>u\<close> comes
  before \<open>v\<close> in it.
\<close>

theorem topologicalSort_acyclic:
  assumes "wf_graph g" and "acyclic (edge_rel g)"
  shows "\<exists>r. topologicalSort g = Inr r \<and> length r = length (getNodes g)
           \<and> (\<forall>e \<in> edge_rel g. precedes (fst e) (snd e) r)"
proof -
  let ?r = "kahn_result g"
  have s: "set ?r = set (getNodes g)" using assms by (rule kahn_complete)
  have "distinct (getNodes g)" using assms(1) by (simp add: wf_graph_def getNodes_def)
  then have len: "length ?r = length (getNodes g)"
    using s kahn_result_props(1)[OF assms(1)] by (metis distinct_card)
  have "\<forall>e \<in> edge_rel g. precedes (fst e) (snd e) ?r"
  proof
    fix e assume e: "e \<in> edge_rel g"
    then have "(fst e, snd e) \<in> edge_rel g" by simp
    moreover from this have "snd e \<in> set ?r" using edge_rel_target[OF assms(1)] s by blast
    ultimately show "precedes (fst e) (snd e) ?r"
      using topo_precedes[OF kahn_result_props(3)[OF assms(1)]] by blast
  qed
  then show ?thesis using len by (simp add: topologicalSort_kahn_result)
qed

lemma topologicalSort_cyclic:
  assumes "wf_graph g" and "\<not> acyclic (edge_rel g)"
  shows "topologicalSort g = Inl CycleDetected"
proof (rule ccontr)
  assume "topologicalSort g \<noteq> Inl CycleDetected"
  then have len: "length (kahn_result g) = length (getNodes g)"
    by (simp add: topologicalSort_kahn_result split: if_splits)
  have dn: "distinct (getNodes g)" using assms(1) by (simp add: wf_graph_def getNodes_def)
  have "card (set (kahn_result g)) = card (set (getNodes g))"
    using len dn kahn_result_props(1)[OF assms(1)] by (simp add: distinct_card)
  then have s: "set (kahn_result g) = set (getNodes g)"
    using kahn_result_props(2)[OF assms(1)] by (simp add: card_subset_eq)
  have "snd ` edge_rel g \<subseteq> set (kahn_result g)"
    using edge_rel_target[OF assms(1)] s by force
  then have "acyclic (edge_rel g)"
    using topo_acyclic kahn_result_props(1,3)[OF assms(1)] by blast
  then show False using assms(2) by simp
qed

definition diamond :: "(string, unit) graph" where
  "diamond = addEdge ''C'' ''D'' () (addEdge ''B'' ''D'' () (addEdge ''A'' ''C'' () (addEdge ''A'' ''B'' () new_Graph)))"

lemma diamond_eq: "diamond = [(''A'', [(''B'', ()), (''C'', ())]), (''B'', [(''D'', ())]), (''C'', [(''D'', ())]), (''D'', [])]"
  by (simp add: diamond_def addEdge_def addNode_def map_has_def getNeighbors_def new_Graph_def)

lemma diamond_edges: "edge_rel diamond = {(''A'', ''B''), (''A'', ''C''), (''B'', ''D''), (''C'', ''D'')}"
  by (auto simp: diamond_eq edge_rel_def edge_pairs_def)

lemma diamond_acyclic: "acyclic (edge_rel diamond)"
proof -
  let ?f = "\<lambda>v. if v = ''A'' then (3::nat) else if v = ''D'' then 1 else 2"
  have "\<And>a b. (a, b) \<in> edge_rel diamond \<Longrightarrow> ?f b < ?f a"
    unfolding diamond_edges by auto
  then show ?thesis by (rule acyclicI_order)
qed

theorem topologicalSort_acyclic_witness:
  "wf_graph diamond \<and> acyclic (edge_rel diamond)
   \<and> (\<exists>r. topologicalSort diamond = Inr r \<and> length r = length (getNodes diamond)
           \<and> (\<forall>e \<in> edge_rel diamond. precedes (fst e) (snd e) r))"
proof -
  have w: "wf_graph diamond"
    unfolding diamond_def by (intro wf_graph_addEdge wf_graph_new)
  show ?thesis using w diamond_acyclic topologicalSort_acyclic[OF w diamond_acyclic] by simp
qed

section \<open>Cycle detection\<close>

lemma dfs_neighbors_Nil: "dfs_neighbors g [] s = Some s"
  by (subst dfs_neighbors.simps) simp

lemma dfs_neighbors_Cons:
  "dfs_neighbors g (neighbor # rest) s =
     (if dfs_color s neighbor = Some GRAY
      then dfs_neighbors g rest
             (s\<lparr>dfs_cycles := dfs_cycles s @ [cycle_from (dfs_path s) neighbor]\<rparr>)
      else if dfs_color s neighbor = Some WHITE
      then Option.bind (detect_dfs g neighbor s) (\<lambda>s'. dfs_neighbors g rest s')
      else dfs_neighbors g rest s)"
  by (subst dfs_neighbors.simps) (simp add: detect_dfs_def)

definition whites :: "'n dfs_state \<Rightarrow> 'n set" where
  "whites s = {n. dfs_color s n = Some WHITE}"

definition blacks :: "'n dfs_state \<Rightarrow> 'n set" where
  "blacks s = {n. dfs_color s n = Some BLACK}"

definition black_ok :: "('n, 'm) graph \<Rightarrow> 'n dfs_state \<Rightarrow> bool" where
  "black_ok g s =
     ((\<forall>u v. u \<in> blacks s \<longrightarrow> (u, v) \<in> edge_rel g \<longrightarrow> v \<in> blacks s)
      \<and> (\<forall>u. u \<in> blacks s \<longrightarrow> (u, u) \<notin> (edge_rel g)\<^sup>+))"

definition dfs_post :: "('n, 'm) graph \<Rightarrow> 'n list \<Rightarrow> 'n dfs_state \<Rightarrow> 'n dfs_state \<Rightarrow> bool" where
  "dfs_post g nbs s s' =
     ((\<forall>n. dfs_color s n \<noteq> Some WHITE \<longrightarrow> dfs_color s' n = dfs_color s n)
      \<and> (\<forall>n. dfs_color s n = Some WHITE \<longrightarrow> dfs_color s' n = Some WHITE \<or> dfs_color s' n = Some BLACK)
      \<and> (\<exists>new. dfs_cycles s' = dfs_cycles s @ new \<and> [] \<notin> set new)
      \<and> (dfs_cycles s' = dfs_cycles s \<longrightarrow> black_ok g s \<longrightarrow>
            black_ok g s' \<and> (\<forall>nb \<in> set nbs. dfs_color s nb \<noteq> None \<longrightarrow> dfs_color s' nb = Some BLACK)))"

lemma dfs_post_whites: "dfs_post g nbs s s' \<Longrightarrow> whites s' \<subseteq> whites s"
  unfolding dfs_post_def whites_def by (metis (mono_tags, lifting) Collect_mono color.distinct(5))

lemma dfs_post_dom: "dfs_post g nbs s s' \<Longrightarrow> dom (dfs_color s') = dom (dfs_color s)"
  unfolding dfs_post_def dom_def
  by (metis (no_types, lifting) option.distinct(1))

lemma dfs_post_Nil: "dfs_post g [] s s"
  by (simp add: dfs_post_def)

lemma cycle_from_nonempty: "cycle_from p nb \<noteq> []"
  by (simp add: cycle_from_def)

lemma dfs_post_gray:
  assumes "dfs_post g rest (s\<lparr>dfs_cycles := dfs_cycles s @ [cycle_from (dfs_path s) nb]\<rparr>) s'"
  shows "dfs_post g (nb # rest) s s'"
proof -
  from assms obtain new where
    n: "dfs_cycles s' = (dfs_cycles s @ [cycle_from (dfs_path s) nb]) @ new" "[] \<notin> set new"
    unfolding dfs_post_def by auto
  then have "dfs_cycles s' = dfs_cycles s @ (cycle_from (dfs_path s) nb # new)"
    "[] \<notin> set (cycle_from (dfs_path s) nb # new)"
    using cycle_from_nonempty[of "dfs_path s" nb] by auto
  moreover from this have "dfs_cycles s' \<noteq> dfs_cycles s" by simp
  ultimately show ?thesis using assms unfolding dfs_post_def by (simp; blast)
qed

lemma dfs_post_skip:
  assumes "dfs_post g rest s s'" "dfs_color s nb \<noteq> Some WHITE" "dfs_color s nb \<noteq> Some GRAY"
  shows "dfs_post g (nb # rest) s s'"
proof -
  have "dfs_color s nb \<noteq> None \<Longrightarrow> dfs_color s nb = Some BLACK"
    using assms(2,3) by (cases "dfs_color s nb") (auto intro: color.exhaust)
  moreover have "dfs_color s' nb = dfs_color s nb" using assms(1,2) unfolding dfs_post_def by blast
  ultimately show ?thesis using assms(1) unfolding dfs_post_def by auto
qed

lemma blacks_closed_rtrancl:
  assumes "\<forall>u v. u \<in> B \<longrightarrow> (u, v) \<in> E \<longrightarrow> v \<in> B" "(z, x) \<in> E\<^sup>*" "z \<in> B"
  shows "x \<in> B"
  using assms(2,3,1) by (induction rule: rtrancl_induct) blast+

lemma black_ok_add:
  assumes ok: "black_ok g s2"
    and succs: "\<forall>v. (nb, v) \<in> edge_rel g \<longrightarrow> v \<in> blacks s2"
    and nb: "nb \<notin> blacks s2"
    and b3: "blacks s3 = insert nb (blacks s2)"
  shows "black_ok g s3"
proof -
  have closed: "\<forall>u v. u \<in> blacks s2 \<longrightarrow> (u, v) \<in> edge_rel g \<longrightarrow> v \<in> blacks s2"
    using ok unfolding black_ok_def by blast
  have "(nb, nb) \<notin> (edge_rel g)\<^sup>+"
  proof
    assume "(nb, nb) \<in> (edge_rel g)\<^sup>+"
    then obtain z where z: "(nb, z) \<in> edge_rel g" "(z, nb) \<in> (edge_rel g)\<^sup>*"
      by (meson tranclD)
    then have "z \<in> blacks s2" using succs by blast
    then have "nb \<in> blacks s2" using blacks_closed_rtrancl[OF closed z(2)] by blast
    then show False using nb by simp
  qed
  then show ?thesis using ok succs unfolding black_ok_def b3 by blast
qed

lemma dfs_post_white:
  assumes wf: "wf_graph g"
    and dm: "set (getNodes g) \<subseteq> dom (dfs_color s)"
    and w: "dfs_color s nb = Some WHITE"
    and p1: "dfs_post g (map fst (getNeighbors g nb)) (enter nb s) s2"
    and p2: "dfs_post g rest (leave nb s2) s'"
  shows "dfs_post g (nb # rest) s s'"
proof -
  let ?e = "enter nb s" and ?l = "leave nb s2"
  have ce: "dfs_color ?e = (dfs_color s)(nb \<mapsto> GRAY)" and ye: "dfs_cycles ?e = dfs_cycles s"
    by (simp_all add: enter_def)
  have cl: "dfs_color ?l = (dfs_color s2)(nb \<mapsto> BLACK)" and yl: "dfs_cycles ?l = dfs_cycles s2"
    by (simp_all add: leave_def)
  have k1: "\<And>n. dfs_color ?e n \<noteq> Some WHITE \<Longrightarrow> dfs_color s2 n = dfs_color ?e n"
    and w1: "\<And>n. dfs_color ?e n = Some WHITE \<Longrightarrow> dfs_color s2 n = Some WHITE \<or> dfs_color s2 n = Some BLACK"
    using p1 unfolding dfs_post_def by blast+
  have k2: "\<And>n. dfs_color ?l n \<noteq> Some WHITE \<Longrightarrow> dfs_color s' n = dfs_color ?l n"
    and w2: "\<And>n. dfs_color ?l n = Some WHITE \<Longrightarrow> dfs_color s' n = Some WHITE \<or> dfs_color s' n = Some BLACK"
    using p2 unfolding dfs_post_def by blast+
  obtain new1 where n1: "dfs_cycles s2 = dfs_cycles s @ new1" "[] \<notin> set new1"
    using p1 unfolding dfs_post_def ye by blast
  obtain new2 where n2: "dfs_cycles s' = dfs_cycles s2 @ new2" "[] \<notin> set new2"
    using p2 unfolding dfs_post_def yl by blast
  have nb2: "dfs_color s2 nb = Some GRAY" using k1[of nb] by (simp add: ce)
  have nb': "dfs_color s' nb = Some BLACK" using k2[of nb] by (simp add: cl)
  have c1: "\<forall>n. dfs_color s n \<noteq> Some WHITE \<longrightarrow> dfs_color s' n = dfs_color s n"
  proof (intro allI impI)
    fix n assume nw: "dfs_color s n \<noteq> Some WHITE"
    then have ne: "n \<noteq> nb" using w by auto
    then have "dfs_color s2 n = dfs_color s n" using k1[of n] nw by (simp add: ce)
    then have "dfs_color ?l n = dfs_color s n" using ne by (simp add: cl)
    then show "dfs_color s' n = dfs_color s n" using k2[of n] nw by simp
  qed
  have c2: "\<forall>n. dfs_color s n = Some WHITE \<longrightarrow> dfs_color s' n = Some WHITE \<or> dfs_color s' n = Some BLACK"
  proof (intro allI impI)
    fix n assume nw: "dfs_color s n = Some WHITE"
    show "dfs_color s' n = Some WHITE \<or> dfs_color s' n = Some BLACK"
    proof (cases "n = nb")
      case True
      then show ?thesis using nb' by simp
    next
      case False
      then have "dfs_color ?e n = Some WHITE" using nw by (simp add: ce)
      then have "dfs_color s2 n = Some WHITE \<or> dfs_color s2 n = Some BLACK" by (rule w1)
      then have "dfs_color ?l n = Some WHITE \<or> dfs_color ?l n = Some BLACK"
        using False by (simp add: cl)
      then show ?thesis using k2[of n] w2[of n] by auto
    qed
  qed
  have c3: "\<exists>new. dfs_cycles s' = dfs_cycles s @ new \<and> [] \<notin> set new"
    using n1 n2 by (intro exI[of _ "new1 @ new2"]) simp
  have c4: "dfs_cycles s' = dfs_cycles s \<longrightarrow> black_ok g s \<longrightarrow>
            black_ok g s' \<and> (\<forall>x \<in> set (nb # rest). dfs_color s x \<noteq> None \<longrightarrow> dfs_color s' x = Some BLACK)"
  proof (intro impI)
    assume same: "dfs_cycles s' = dfs_cycles s" and ok: "black_ok g s"
    have "new1 = []" "new2 = []" using same n1(1) n2(1) by auto
    then have s1: "dfs_cycles s2 = dfs_cycles ?e" and s2: "dfs_cycles s' = dfs_cycles ?l"
      using n1 n2 ye yl by auto
    have "blacks ?e = blacks s" using w by (auto simp: blacks_def ce)
    then have "black_ok g ?e" using ok by (simp add: black_ok_def)
    then have ok2: "black_ok g s2"
      and nbrs: "\<And>x. x \<in> set (map fst (getNeighbors g nb)) \<Longrightarrow> dfs_color ?e x \<noteq> None
                   \<Longrightarrow> dfs_color s2 x = Some BLACK"
      using p1 s1 unfolding dfs_post_def by blast+
    have d: "distinct (map fst g)" using wf by (simp add: wf_graph_def)
    have succs: "\<forall>v. (nb, v) \<in> edge_rel g \<longrightarrow> v \<in> blacks s2"
    proof (intro allI impI)
      fix v assume e: "(nb, v) \<in> edge_rel g"
      then have "v \<in> set (map fst (getNeighbors g nb))" using edge_rel_iff[OF d] by auto
      moreover have "v \<in> set (getNodes g)" using wf e by (rule edge_rel_target)
      then have "dfs_color ?e v \<noteq> None" using dm by (auto simp: ce)
      ultimately show "v \<in> blacks s2" using nbrs by (simp add: blacks_def)
    qed
    have "nb \<notin> blacks s2" using nb2 by (simp add: blacks_def)
    moreover have "blacks ?l = insert nb (blacks s2)" by (auto simp: blacks_def cl)
    ultimately have "black_ok g ?l" using black_ok_add[OF ok2 succs] by blast
    then have ok': "black_ok g s'"
      and rst: "\<And>x. x \<in> set rest \<Longrightarrow> dfs_color ?l x \<noteq> None \<Longrightarrow> dfs_color s' x = Some BLACK"
      using p2 s2 unfolding dfs_post_def by blast+
    have "\<forall>x \<in> set (nb # rest). dfs_color s x \<noteq> None \<longrightarrow> dfs_color s' x = Some BLACK"
    proof (intro ballI impI)
      fix x assume x: "x \<in> set (nb # rest)" and cx: "dfs_color s x \<noteq> None"
      show "dfs_color s' x = Some BLACK"
      proof (cases "x = nb")
        case True
        then show ?thesis using nb' by simp
      next
        case False
        have "dom (dfs_color s2) = dom (dfs_color ?e)" using p1 by (rule dfs_post_dom)
        then have "dfs_color s2 x \<noteq> None" using cx False by (auto simp: ce dom_def)
        then have "dfs_color ?l x \<noteq> None" by (simp add: cl)
        then show ?thesis using rst x False by simp
      qed
    qed
    then show "black_ok g s' \<and> (\<forall>x \<in> set (nb # rest). dfs_color s x \<noteq> None \<longrightarrow> dfs_color s' x = Some BLACK)"
      using ok' by simp
  qed
  show ?thesis unfolding dfs_post_def using c1 c2 c3 c4 by blast
qed

lemma finite_whites: "finite (dom (dfs_color s)) \<Longrightarrow> finite (whites s)"
  by (rule finite_subset[of _ "dom (dfs_color s)"]) (auto simp: whites_def)

lemma dfs_neighbors_total:
  assumes wf: "wf_graph g"
  shows "finite (dom (dfs_color s)) \<Longrightarrow> set (getNodes g) \<subseteq> dom (dfs_color s) \<Longrightarrow>
         card (whites s) < N \<Longrightarrow>
         \<exists>s'. dfs_neighbors g nbs s = Some s' \<and> dfs_post g nbs s s'"
proof (induction N arbitrary: s nbs)
  case 0
  then show ?case by simp
next
  case (Suc N)
  from Suc.prems show ?case
  proof (induction nbs arbitrary: s)
    case Nil
    then show ?case by (simp add: dfs_neighbors_Nil dfs_post_Nil)
  next
    case (Cons nb rest)
    show ?case
    proof (cases "dfs_color s nb = Some GRAY")
      case True
      let ?s1 = "s\<lparr>dfs_cycles := dfs_cycles s @ [cycle_from (dfs_path s) nb]\<rparr>"
      have "whites ?s1 = whites s" by (simp add: whites_def)
      then obtain s' where "dfs_neighbors g rest ?s1 = Some s'" "dfs_post g rest ?s1 s'"
        using Cons.IH[of ?s1] Cons.prems by auto
      then show ?thesis using True dfs_post_gray[of g rest s nb s']
        by (simp add: dfs_neighbors_Cons)
    next
      case ng: False
      show ?thesis
      proof (cases "dfs_color s nb = Some WHITE")
        case False
        obtain s' where "dfs_neighbors g rest s = Some s'" "dfs_post g rest s s'"
          using Cons.IH[of s] Cons.prems by auto
        then show ?thesis using ng False dfs_post_skip[of g rest s s' nb]
          by (simp add: dfs_neighbors_Cons)
      next
        case True
        let ?e = "enter nb s"
        have ce: "dfs_color ?e = (dfs_color s)(nb \<mapsto> GRAY)" by (simp add: enter_def)
        have nbd: "nb \<in> dom (dfs_color s)" using True by auto
        then have de: "dom (dfs_color ?e) = dom (dfs_color s)" by (auto simp: ce)
        have fw: "finite (whites s)" using Cons.prems(1) by (rule finite_whites)
        have "whites ?e = whites s - {nb}" by (auto simp: whites_def ce)
        moreover have "nb \<in> whites s" using True by (simp add: whites_def)
        ultimately have "card (whites ?e) < card (whites s)"
          using fw by (metis card_Diff1_less)
        then have "card (whites ?e) < N" using Cons.prems(3) by simp
        then obtain s2 where r1: "dfs_neighbors g (map fst (getNeighbors g nb)) ?e = Some s2"
          and p1: "dfs_post g (map fst (getNeighbors g nb)) ?e s2"
          using Suc.IH[of ?e "map fst (getNeighbors g nb)"] Cons.prems(1,2) de by auto
        let ?l = "leave nb s2"
        have cl: "dfs_color ?l = (dfs_color s2)(nb \<mapsto> BLACK)" by (simp add: leave_def)
        have d2: "dom (dfs_color s2) = dom (dfs_color s)" using dfs_post_dom[OF p1] de by simp
        then have dl: "dom (dfs_color ?l) = dom (dfs_color s)" using nbd by (auto simp: cl)
        have "whites ?l \<subseteq> whites s2" by (auto simp: whites_def cl)
        also have "\<dots> \<subseteq> whites ?e" using p1 by (rule dfs_post_whites)
        also have "\<dots> \<subseteq> whites s" by (auto simp: whites_def ce)
        finally have "card (whites ?l) \<le> card (whites s)" using fw by (simp add: card_mono)
        then have "card (whites ?l) < Suc N" using Cons.prems(3) by simp
        then obtain s' where r2: "dfs_neighbors g rest ?l = Some s'" and p2: "dfs_post g rest ?l s'"
          using Cons.IH[of ?l] Cons.prems(1,2) dl by auto
        have "dfs_post g (nb # rest) s s'"
          using wf Cons.prems(2) True p1 p2 by (rule dfs_post_white)
        moreover have "dfs_neighbors g (nb # rest) s = Some s'"
          using True r1 r2 by (simp add: dfs_neighbors_Cons detect_dfs_def)
        ultimately show ?thesis by simp
      qed
    qed
  qed
qed

lemma detect_dfs_as_loop:
  "dfs_color s node = Some WHITE \<Longrightarrow> detect_dfs g node s = dfs_neighbors g [node] s"
proof -
  have "dfs_neighbors g [] = Some" by (rule ext) (simp add: dfs_neighbors_Nil)
  then show "dfs_color s node = Some WHITE \<Longrightarrow> detect_dfs g node s = dfs_neighbors g [node] s"
    by (simp add: dfs_neighbors_Cons)
qed

lemma dfs_post_path: "dfs_post g nbs (s\<lparr>dfs_path := p\<rparr>) s' = dfs_post g nbs s s'"
  by (simp add: dfs_post_def black_ok_def blacks_def)

lemma dfs_post_trans_roots:
  assumes p1: "dfs_post g [node] s s1" and p2: "dfs_post g rest s1 s'"
    and c: "dfs_color s node \<noteq> None"
  shows "dfs_post g (node # rest) s s'"
proof -
  have k1: "\<And>n. dfs_color s n \<noteq> Some WHITE \<Longrightarrow> dfs_color s1 n = dfs_color s n"
    and w1: "\<And>n. dfs_color s n = Some WHITE \<Longrightarrow> dfs_color s1 n = Some WHITE \<or> dfs_color s1 n = Some BLACK"
    using p1 unfolding dfs_post_def by blast+
  have k2: "\<And>n. dfs_color s1 n \<noteq> Some WHITE \<Longrightarrow> dfs_color s' n = dfs_color s1 n"
    and w2: "\<And>n. dfs_color s1 n = Some WHITE \<Longrightarrow> dfs_color s' n = Some WHITE \<or> dfs_color s' n = Some BLACK"
    using p2 unfolding dfs_post_def by blast+
  obtain new1 where n1: "dfs_cycles s1 = dfs_cycles s @ new1" "[] \<notin> set new1"
    using p1 unfolding dfs_post_def by blast
  obtain new2 where n2: "dfs_cycles s' = dfs_cycles s1 @ new2" "[] \<notin> set new2"
    using p2 unfolding dfs_post_def by blast
  have c1: "\<forall>n. dfs_color s n \<noteq> Some WHITE \<longrightarrow> dfs_color s' n = dfs_color s n"
  proof (intro allI impI)
    fix n assume nw: "dfs_color s n \<noteq> Some WHITE"
    then have "dfs_color s1 n = dfs_color s n" by (rule k1)
    then show "dfs_color s' n = dfs_color s n" using k2[of n] nw by simp
  qed
  have c2: "\<forall>n. dfs_color s n = Some WHITE \<longrightarrow> dfs_color s' n = Some WHITE \<or> dfs_color s' n = Some BLACK"
  proof (intro allI impI)
    fix n assume "dfs_color s n = Some WHITE"
    then have "dfs_color s1 n = Some WHITE \<or> dfs_color s1 n = Some BLACK" by (rule w1)
    then show "dfs_color s' n = Some WHITE \<or> dfs_color s' n = Some BLACK"
      using k2[of n] w2[of n] by auto
  qed
  have c3: "\<exists>new. dfs_cycles s' = dfs_cycles s @ new \<and> [] \<notin> set new"
    using n1 n2 by (intro exI[of _ "new1 @ new2"]) simp
  have c4: "dfs_cycles s' = dfs_cycles s \<longrightarrow> black_ok g s \<longrightarrow>
            black_ok g s' \<and> (\<forall>x \<in> set (node # rest). dfs_color s x \<noteq> None \<longrightarrow> dfs_color s' x = Some BLACK)"
  proof (intro impI)
    assume same: "dfs_cycles s' = dfs_cycles s" and ok: "black_ok g s"
    have "new1 = []" "new2 = []" using same n1(1) n2(1) by auto
    then have e1: "dfs_cycles s1 = dfs_cycles s" and e2: "dfs_cycles s' = dfs_cycles s1"
      using n1 n2 by auto
    have ok1: "black_ok g s1" and nb1: "dfs_color s1 node = Some BLACK"
      using p1 e1 ok c unfolding dfs_post_def by auto
    have ok': "black_ok g s'"
      and rst: "\<And>x. x \<in> set rest \<Longrightarrow> dfs_color s1 x \<noteq> None \<Longrightarrow> dfs_color s' x = Some BLACK"
      using p2 e2 ok1 unfolding dfs_post_def by blast+
    have dm: "dom (dfs_color s1) = dom (dfs_color s)" using p1 by (rule dfs_post_dom)
    have "\<forall>x \<in> set (node # rest). dfs_color s x \<noteq> None \<longrightarrow> dfs_color s' x = Some BLACK"
    proof (intro ballI impI)
      fix x assume x: "x \<in> set (node # rest)" and cx: "dfs_color s x \<noteq> None"
      show "dfs_color s' x = Some BLACK"
      proof (cases "x = node")
        case True
        then show ?thesis using k2[of node] nb1 by simp
      next
        case False
        have "dfs_color s1 x \<noteq> None" using cx dm by (auto simp: dom_def)
        then show ?thesis using rst x False by simp
      qed
    qed
    then show "black_ok g s' \<and> (\<forall>x \<in> set (node # rest). dfs_color s x \<noteq> None \<longrightarrow> dfs_color s' x = Some BLACK)"
      using ok' by simp
  qed
  show ?thesis unfolding dfs_post_def using c1 c2 c3 c4 by blast
qed

lemma detect_roots_total:
  assumes wf: "wf_graph g"
  shows "finite (dom (dfs_color s)) \<Longrightarrow> set (getNodes g) \<subseteq> dom (dfs_color s) \<Longrightarrow>
         \<forall>n. dfs_color s n \<noteq> Some GRAY \<Longrightarrow> set ns \<subseteq> dom (dfs_color s) \<Longrightarrow>
         \<exists>s'. detect_roots g ns s = Some s' \<and> dfs_post g ns s s'"
proof (induction ns arbitrary: s)
  case Nil
  then show ?case by (simp add: dfs_post_Nil)
next
  case (Cons node rest)
  show ?case
  proof (cases "dfs_color s node = Some WHITE")
    case False
    obtain s' where "detect_roots g rest s = Some s'" "dfs_post g rest s s'"
      using Cons.IH[of s] Cons.prems by auto
    then show ?thesis using False Cons.prems(3) dfs_post_skip[of g rest s s' node] by simp
  next
    case True
    let ?s0 = "s\<lparr>dfs_path := []\<rparr>"
    have w0: "whites ?s0 = whites s" by (simp add: whites_def)
    have "card (whites ?s0) < Suc (card (whites ?s0))" by simp
    then obtain s1 where r1: "dfs_neighbors g [node] ?s0 = Some s1" and p1: "dfs_post g [node] ?s0 s1"
      using dfs_neighbors_total[OF wf, of ?s0 "Suc (card (whites ?s0))" "[node]"] Cons.prems(1,2)
      by auto
    have p1': "dfs_post g [node] s s1" using p1 by (simp add: dfs_post_path)
    have dm: "dom (dfs_color s1) = dom (dfs_color s)" using p1' by (rule dfs_post_dom)
    have ng: "\<forall>n. dfs_color s1 n \<noteq> Some GRAY"
    proof
      fix n
      show "dfs_color s1 n \<noteq> Some GRAY"
      proof (cases "dfs_color s n = Some WHITE")
        case True
        then have "dfs_color s1 n = Some WHITE \<or> dfs_color s1 n = Some BLACK"
          using p1' unfolding dfs_post_def by blast
        then show ?thesis by auto
      next
        case False
        then have "dfs_color s1 n = dfs_color s n" using p1' unfolding dfs_post_def by blast
        then show ?thesis using Cons.prems(3) by simp
      qed
    qed
    obtain s' where r2: "detect_roots g rest s1 = Some s'" and p2: "dfs_post g rest s1 s'"
      using Cons.IH[of s1] Cons.prems(1,2,4) dm ng by auto
    have "dfs_color s node \<noteq> None" using True by simp
    then have "dfs_post g (node # rest) s s'" by (rule dfs_post_trans_roots[OF p1' p2])
    moreover have "detect_roots g (node # rest) s = Some s'"
      using True r1 r2 by (simp add: detect_dfs_as_loop)
    ultimately show ?thesis by simp
  qed
qed

lemma fold_white:
  "fold (\<lambda>node c. c(node \<mapsto> WHITE)) ns c0 n = (if n \<in> set ns then Some WHITE else c0 n)"
  by (induction ns arbitrary: c0) auto

lemma detectCycles_cyclic:
  assumes wf: "wf_graph g" and cyc: "\<not> acyclic (edge_rel g)"
  shows "\<exists>cs. detectCycles g = Some cs \<and> cs \<noteq> [] \<and> [] \<notin> set cs"
proof -
  let ?s0 = "\<lparr>dfs_color = fold (\<lambda>node c. c(node \<mapsto> WHITE)) (getNodes g) Map.empty,
             dfs_path = [], dfs_cycles = []\<rparr>"
  have col: "\<And>n. dfs_color ?s0 n = (if n \<in> set (getNodes g) then Some WHITE else None)"
    by (simp add: fold_white)
  have dm: "dom (dfs_color ?s0) = set (getNodes g)"
    unfolding dom_def col by auto
  have ng: "\<forall>n. dfs_color ?s0 n \<noteq> Some GRAY" unfolding col by simp
  obtain s' where r: "detect_roots g (getNodes g) ?s0 = Some s'"
    and p: "dfs_post g (getNodes g) ?s0 s'"
    using detect_roots_total[OF wf, of ?s0 "getNodes g"] dm ng by auto
  obtain new where new: "dfs_cycles s' = new" "[] \<notin> set new"
    using p unfolding dfs_post_def by auto
  have "dfs_cycles s' \<noteq> []"
  proof
    assume e: "dfs_cycles s' = []"
    have "blacks ?s0 = {}" unfolding blacks_def col by auto
    then have "black_ok g ?s0" by (simp add: black_ok_def)
    then have ok: "black_ok g s'"
      and bl: "\<And>n. n \<in> set (getNodes g) \<Longrightarrow> dfs_color s' n = Some BLACK"
      using p e col unfolding dfs_post_def by auto
    have "\<And>x. (x, x) \<notin> (edge_rel g)\<^sup>+"
    proof
      fix x assume x: "(x, x) \<in> (edge_rel g)\<^sup>+"
      then obtain z where "(x, z) \<in> edge_rel g" by (meson tranclD)
      then have "x \<in> set (getNodes g)" by (rule edge_rel_source)
      then have "x \<in> blacks s'" using bl by (simp add: blacks_def)
      then show False using ok x unfolding black_ok_def by blast
    qed
    then have "acyclic (edge_rel g)" by (simp add: acyclic_def)
    then show False using cyc by simp
  qed
  then show ?thesis using r new by (simp add: detectCycles_def)
qed

definition path_ok :: "('n, 'm) graph \<Rightarrow> 'n dfs_state \<Rightarrow> bool" where
  "path_ok g s =
     ((\<forall>n. dfs_color s n = Some GRAY \<longrightarrow> n \<in> set (dfs_path s))
      \<and> successively (\<lambda>u v. (u, v) \<in> edge_rel g) (dfs_path s)
      \<and> (\<forall>c \<in> set (dfs_cycles s). is_cycle g c))"

definition loop_ok :: "('n, 'm) graph \<Rightarrow> 'n list \<Rightarrow> 'n dfs_state \<Rightarrow> 'n dfs_state \<Rightarrow> bool" where
  "loop_ok g nbs s s' =
     (distinct (map fst g) \<longrightarrow> path_ok g s \<longrightarrow> dfs_path s \<noteq> [] \<longrightarrow>
      (\<forall>n \<in> set nbs. (last (dfs_path s), n) \<in> edge_rel g) \<longrightarrow>
        path_ok g s' \<and> dfs_path s' = dfs_path s
        \<and> (\<forall>n. (dfs_color s' n = Some GRAY) = (dfs_color s n = Some GRAY)))"

lemma cycle_from_is_cycle:
  assumes nb: "nb \<in> set p" and ch: "successively (\<lambda>u v. (u, v) \<in> edge_rel g) p"
    and e: "(last p, nb) \<in> edge_rel g"
  shows "is_cycle g (cycle_from p nb)"
proof -
  let ?d = "dropWhile (\<lambda>x. x \<noteq> nb) p"
  have ne: "?d \<noteq> []" using nb by (simp add: dropWhile_eq_Nil_conv)
  have hd: "hd ?d = nb" using ne hd_dropWhile[of "\<lambda>x. x \<noteq> nb" p] by simp
  have p: "p = takeWhile (\<lambda>x. x \<noteq> nb) p @ ?d" by simp
  have l: "last ?d = last p" using ne p by (metis last_appendR)
  have "successively (\<lambda>u v. (u, v) \<in> edge_rel g) (takeWhile (\<lambda>x. x \<noteq> nb) p @ ?d)"
    using ch by simp
  then have s: "successively (\<lambda>u v. (u, v) \<in> edge_rel g) ?d"
    unfolding successively_append_iff by blast
  have c: "cycle_from p nb = ?d @ [nb]" using nb by (simp add: cycle_from_def)
  have "2 \<le> length (?d @ [nb])" using ne by (cases ?d) simp_all
  moreover have "hd (?d @ [nb]) = last (?d @ [nb])" using ne hd by simp
  moreover have "successively (\<lambda>u v. (u, v) \<in> edge_rel g) (?d @ [nb])"
    unfolding successively_append_iff using s ne l e by simp
  ultimately show ?thesis unfolding c is_cycle_def by blast
qed

lemma loop_ok_Nil: "loop_ok g [] s s"
  by (simp add: loop_ok_def)

lemma loop_ok_gray:
  assumes g: "dfs_color s nb = Some GRAY"
    and r: "loop_ok g rest (s\<lparr>dfs_cycles := dfs_cycles s @ [cycle_from (dfs_path s) nb]\<rparr>) s'"
  shows "loop_ok g (nb # rest) s s'"
  unfolding loop_ok_def
proof (intro impI)
  let ?s1 = "s\<lparr>dfs_cycles := dfs_cycles s @ [cycle_from (dfs_path s) nb]\<rparr>"
  assume d: "distinct (map fst g)" and ok: "path_ok g s" and ne: "dfs_path s \<noteq> []"
    and nbs: "\<forall>n \<in> set (nb # rest). (last (dfs_path s), n) \<in> edge_rel g"
  have "nb \<in> set (dfs_path s)" using ok g unfolding path_ok_def by blast
  moreover have "successively (\<lambda>u v. (u, v) \<in> edge_rel g) (dfs_path s)"
    using ok unfolding path_ok_def by blast
  moreover have "(last (dfs_path s), nb) \<in> edge_rel g" using nbs by simp
  ultimately have "is_cycle g (cycle_from (dfs_path s) nb)" by (rule cycle_from_is_cycle)
  then have ok1: "path_ok g ?s1" using ok unfolding path_ok_def by simp
  have "\<forall>n \<in> set rest. (last (dfs_path ?s1), n) \<in> edge_rel g" using nbs by simp
  moreover have "dfs_path ?s1 \<noteq> []" using ne by simp
  ultimately have "path_ok g s' \<and> dfs_path s' = dfs_path ?s1
        \<and> (\<forall>n. (dfs_color s' n = Some GRAY) = (dfs_color ?s1 n = Some GRAY))"
    using r d ok1 unfolding loop_ok_def by blast
  then show "path_ok g s' \<and> dfs_path s' = dfs_path s
        \<and> (\<forall>n. (dfs_color s' n = Some GRAY) = (dfs_color s n = Some GRAY))"
    by simp
qed

lemma loop_ok_skip:
  assumes r: "loop_ok g rest s s'"
  shows "loop_ok g (nb # rest) s s'"
  using r unfolding loop_ok_def by simp

lemma loop_ok_white:
  assumes w: "dfs_color s nb = Some WHITE"
    and p1: "loop_ok g (map fst (getNeighbors g nb)) (enter nb s) s2"
    and p2: "loop_ok g rest (leave nb s2) s'"
  shows "loop_ok g (nb # rest) s s'"
  unfolding loop_ok_def
proof (intro impI)
  let ?e = "enter nb s" and ?l = "leave nb s2"
  let ?E = "\<lambda>u v. (u, v) \<in> edge_rel g"
  assume d: "distinct (map fst g)" and ok: "path_ok g s" and ne: "dfs_path s \<noteq> []"
    and nbs: "\<forall>n \<in> set (nb # rest). (last (dfs_path s), n) \<in> edge_rel g"
  have ce: "dfs_color ?e = (dfs_color s)(nb \<mapsto> GRAY)" and pe: "dfs_path ?e = dfs_path s @ [nb]"
    and ye: "dfs_cycles ?e = dfs_cycles s"
    by (simp_all add: enter_def)
  have cl: "dfs_color ?l = (dfs_color s2)(nb \<mapsto> BLACK)" and pl: "dfs_path ?l = butlast (dfs_path s2)"
    and yl: "dfs_cycles ?l = dfs_cycles s2"
    by (simp_all add: leave_def)
  have gr: "\<And>n. dfs_color s n = Some GRAY \<Longrightarrow> n \<in> set (dfs_path s)"
    and su: "successively ?E (dfs_path s)"
    and cy: "\<forall>c \<in> set (dfs_cycles s). is_cycle g c"
    using ok unfolding path_ok_def by blast+
  have "successively ?E (dfs_path s @ [nb])"
    unfolding successively_append_iff using su ne nbs by simp
  moreover have "\<forall>n. dfs_color ?e n = Some GRAY \<longrightarrow> n \<in> set (dfs_path ?e)"
    using gr by (simp add: ce pe)
  ultimately have oke: "path_ok g ?e" using cy unfolding path_ok_def pe ye by blast
  have "\<forall>n \<in> set (map fst (getNeighbors g nb)). (last (dfs_path ?e), n) \<in> edge_rel g"
    using edge_rel_iff[OF d] by (simp add: pe)
  moreover have "dfs_path ?e \<noteq> []" by (simp add: pe)
  ultimately have ok2: "path_ok g s2" and p2e: "dfs_path s2 = dfs_path ?e"
    and g2: "\<And>n. (dfs_color s2 n = Some GRAY) = (dfs_color ?e n = Some GRAY)"
    using p1 d oke unfolding loop_ok_def by blast+
  have pl': "dfs_path ?l = dfs_path s" by (simp add: pl p2e pe)
  have gl: "\<And>n. (dfs_color ?l n = Some GRAY) = (dfs_color s n = Some GRAY)"
    using g2 w by (simp add: cl ce)
  have "\<forall>c \<in> set (dfs_cycles ?l). is_cycle g c" using ok2 unfolding path_ok_def yl by blast
  moreover have "\<forall>n. dfs_color ?l n = Some GRAY \<longrightarrow> n \<in> set (dfs_path ?l)"
    using gr unfolding gl pl' by blast
  ultimately have okl: "path_ok g ?l" using su unfolding path_ok_def pl' by blast
  have "\<forall>n \<in> set rest. (last (dfs_path ?l), n) \<in> edge_rel g" using nbs by (simp add: pl')
  moreover have "dfs_path ?l \<noteq> []" using ne by (simp add: pl')
  ultimately have "path_ok g s' \<and> dfs_path s' = dfs_path ?l
        \<and> (\<forall>n. (dfs_color s' n = Some GRAY) = (dfs_color ?l n = Some GRAY))"
    using p2 d okl unfolding loop_ok_def by blast
  then show "path_ok g s' \<and> dfs_path s' = dfs_path s
        \<and> (\<forall>n. (dfs_color s' n = Some GRAY) = (dfs_color s n = Some GRAY))"
    unfolding pl' gl by simp
qed

lemma dfs_neighbors_loop_ok:
  assumes "dfs_neighbors g nbs s = Some s'"
  shows "loop_ok g nbs s s'"
  using assms
proof (rule dfs_neighbors.raw_induct[where P = loop_ok, rotated])
  fix f :: "('a, 'b) graph \<Rightarrow> 'a list \<Rightarrow> 'a dfs_state \<Rightarrow> 'a dfs_state option"
  fix g :: "('a, 'b) graph" and nbs :: "'a list" and s s' :: "'a dfs_state"
  assume IH: "\<And>g nbs s y. f g nbs s = Some y \<Longrightarrow> loop_ok g nbs s y"
  assume eq: "(case nbs of [] \<Rightarrow> Some s
      | neighbor # rest \<Rightarrow>
          if dfs_color s neighbor = Some GRAY
          then f g rest (s\<lparr>dfs_cycles := dfs_cycles s @ [cycle_from (dfs_path s) neighbor]\<rparr>)
          else if dfs_color s neighbor = Some WHITE
               then Option.bind (f g (map fst (getNeighbors g neighbor)) (enter neighbor s))
                      (\<lambda>s'. f g rest (leave neighbor s'))
               else f g rest s) = Some s'"
  show "loop_ok g nbs s s'"
  proof (cases nbs)
    case Nil
    then show ?thesis using eq by (simp add: loop_ok_Nil)
  next
    case (Cons nb rest)
    show ?thesis
    proof (cases "dfs_color s nb = Some GRAY")
      case True
      then have "f g rest (s\<lparr>dfs_cycles := dfs_cycles s @ [cycle_from (dfs_path s) nb]\<rparr>) = Some s'"
        using eq Cons by simp
      then have "loop_ok g rest (s\<lparr>dfs_cycles := dfs_cycles s @ [cycle_from (dfs_path s) nb]\<rparr>) s'"
        by (rule IH)
      then show ?thesis unfolding Cons by (rule loop_ok_gray[OF True])
    next
      case ng: False
      show ?thesis
      proof (cases "dfs_color s nb = Some WHITE")
        case False
        then have "f g rest s = Some s'" using eq Cons ng by simp
        then have "loop_ok g rest s s'" by (rule IH)
        then show ?thesis unfolding Cons by (rule loop_ok_skip)
      next
        case True
        then have "Option.bind (f g (map fst (getNeighbors g nb)) (enter nb s))
                     (\<lambda>s2. f g rest (leave nb s2)) = Some s'"
          using eq Cons ng by simp
        then obtain s2 where a: "f g (map fst (getNeighbors g nb)) (enter nb s) = Some s2"
          and b: "f g rest (leave nb s2) = Some s'"
          by (auto simp: bind_eq_Some_conv)
        have x: "loop_ok g (map fst (getNeighbors g nb)) (enter nb s) s2" using a by (rule IH)
        have y: "loop_ok g rest (leave nb s2) s'" using b by (rule IH)
        show ?thesis unfolding Cons by (rule loop_ok_white[OF True x y])
      qed
    qed
  qed
qed

definition roots_ok :: "('n, 'm) graph \<Rightarrow> 'n dfs_state \<Rightarrow> bool" where
  "roots_ok g s = ((\<forall>n. dfs_color s n \<noteq> Some GRAY) \<and> (\<forall>c \<in> set (dfs_cycles s). is_cycle g c))"

lemma detect_dfs_roots_ok:
  assumes d: "distinct (map fst g)" and ok: "roots_ok g s" and w: "dfs_color s node = Some WHITE"
    and r: "detect_dfs g node (s\<lparr>dfs_path := []\<rparr>) = Some s'"
  shows "roots_ok g s'"
proof -
  let ?e = "enter node (s\<lparr>dfs_path := []\<rparr>)"
  obtain s2 where a: "dfs_neighbors g (map fst (getNeighbors g node)) ?e = Some s2"
    and s': "s' = leave node s2"
    using r by (auto simp: detect_dfs_def bind_eq_Some_conv)
  have ce: "dfs_color ?e = (dfs_color s)(node \<mapsto> GRAY)" and pe: "dfs_path ?e = [node]"
    and ye: "dfs_cycles ?e = dfs_cycles s"
    by (simp_all add: enter_def)
  have oke: "path_ok g ?e" using ok unfolding path_ok_def roots_ok_def ce pe ye by simp
  have "\<forall>n \<in> set (map fst (getNeighbors g node)). (last (dfs_path ?e), n) \<in> edge_rel g"
    using edge_rel_iff[OF d] by (simp add: pe)
  moreover have "dfs_path ?e \<noteq> []" by (simp add: pe)
  ultimately have ok2: "path_ok g s2"
    and g2: "\<And>n. (dfs_color s2 n = Some GRAY) = (dfs_color ?e n = Some GRAY)"
    using dfs_neighbors_loop_ok[OF a] d oke unfolding loop_ok_def by blast+
  have "\<And>n. dfs_color s' n \<noteq> Some GRAY"
    using g2 ok unfolding s' roots_ok_def by (simp add: leave_def ce)
  moreover have "\<forall>c \<in> set (dfs_cycles s'). is_cycle g c"
    using ok2 unfolding s' path_ok_def by (simp add: leave_def)
  ultimately show ?thesis unfolding roots_ok_def by blast
qed

lemma detect_roots_roots_ok:
  assumes d: "distinct (map fst g)"
  shows "roots_ok g s \<Longrightarrow> detect_roots g ns s = Some s' \<Longrightarrow> roots_ok g s'"
proof (induction ns arbitrary: s)
  case Nil
  then show ?case by simp
next
  case (Cons node rest)
  show ?case
  proof (cases "dfs_color s node = Some WHITE")
    case False
    then show ?thesis using Cons by simp
  next
    case True
    then obtain s1 where a: "detect_dfs g node (s\<lparr>dfs_path := []\<rparr>) = Some s1"
      and b: "detect_roots g rest s1 = Some s'"
      using Cons.prems(2) by (auto simp: bind_eq_Some_conv)
    have "roots_ok g s1" using d Cons.prems(1) True a by (rule detect_dfs_roots_ok)
    then show ?thesis using b by (rule Cons.IH)
  qed
qed

lemma detectCycles_sound:
  assumes d: "distinct (map fst g)" and r: "detectCycles g = Some cs"
  shows "\<forall>c \<in> set cs. is_cycle g c"
proof -
  let ?s0 = "\<lparr>dfs_color = fold (\<lambda>node c. c(node \<mapsto> WHITE)) (getNodes g) Map.empty,
             dfs_path = [], dfs_cycles = []\<rparr>"
  obtain s' where a: "detect_roots g (getNodes g) ?s0 = Some s'" and cs: "cs = dfs_cycles s'"
    using r by (auto simp: detectCycles_def)
  have "roots_ok g ?s0" by (simp add: roots_ok_def fold_white)
  then have "roots_ok g s'" using a by (rule detect_roots_roots_ok[OF d])
  then show ?thesis unfolding cs roots_ok_def by blast
qed

text \<open>
  Claim C4.  On a graph with a cycle \<open>detectCycles\<close> returns, the list it returns is not empty
  and every list in it is a cycle of the graph (it has at least two nodes, ends at the node
  it starts from and follows an edge of the graph at every step), and \<open>topologicalSort\<close>
  throws.
\<close>

theorem cyclic_graph_rejected:
  assumes "wf_graph g" and "\<not> acyclic (edge_rel g)"
  shows "(\<exists>cs. detectCycles g = Some cs \<and> cs \<noteq> [] \<and> (\<forall>c \<in> set cs. is_cycle g c))
         \<and> topologicalSort g = Inl CycleDetected"
proof -
  obtain cs where cs: "detectCycles g = Some cs" "cs \<noteq> []"
    using detectCycles_cyclic[OF assms] by blast
  have "distinct (map fst g)" using assms(1) by (simp add: wf_graph_def)
  then have "\<forall>c \<in> set cs. is_cycle g c" using cs(1) by (rule detectCycles_sound)
  then show ?thesis using cs topologicalSort_cyclic[OF assms] by blast
qed

definition two_cycle :: "(string, unit) graph" where
  "two_cycle = addEdge ''B'' ''A'' () (addEdge ''A'' ''B'' () new_Graph)"

lemma two_cycle_edges: "edge_rel two_cycle = {(''A'', ''B''), (''B'', ''A'')}"
  by (auto simp: two_cycle_def addEdge_def addNode_def map_has_def getNeighbors_def new_Graph_def
      edge_rel_def edge_pairs_def)

lemma two_cycle_cyclic: "\<not> acyclic (edge_rel two_cycle)"
proof -
  have "(''A'', ''B'') \<in> edge_rel two_cycle" "(''B'', ''A'') \<in> edge_rel two_cycle"
    by (simp_all add: two_cycle_edges)
  then have "(''A'', ''A'') \<in> (edge_rel two_cycle)\<^sup>+" by (meson trancl.simps)
  then show ?thesis by (auto simp: acyclic_def)
qed

lemma two_cycle_detected: "detectCycles two_cycle = Some [[''A'', ''B'', ''A'']]"
  by (simp add: detectCycles_def two_cycle_def addEdge_def addNode_def map_has_def getNeighbors_def
      new_Graph_def getNodes_def map_set_def detect_dfs_def dfs_neighbors_Cons dfs_neighbors_Nil enter_def leave_def
      cycle_from_def)

theorem cyclic_graph_rejected_witness:
  "wf_graph two_cycle \<and> \<not> acyclic (edge_rel two_cycle)
   \<and> detectCycles two_cycle = Some [[''A'', ''B'', ''A'']]
   \<and> is_cycle two_cycle [''A'', ''B'', ''A'']
   \<and> topologicalSort two_cycle = Inl CycleDetected"
proof -
  have w: "wf_graph two_cycle"
    unfolding two_cycle_def by (intro wf_graph_addEdge wf_graph_new)
  from cyclic_graph_rejected[OF w two_cycle_cyclic]
  obtain cs where cs: "detectCycles two_cycle = Some cs" "\<forall>c \<in> set cs. is_cycle two_cycle c"
    and t: "topologicalSort two_cycle = Inl CycleDetected"
    by blast
  have "cs = [[''A'', ''B'', ''A'']]" using cs(1) two_cycle_detected by simp
  then have "is_cycle two_cycle [''A'', ''B'', ''A'']" using cs(2) by simp
  then show ?thesis using w two_cycle_cyclic two_cycle_detected t by simp
qed


section \<open>Dirty propagation\<close>

lemma markDirty_each_Nil: "markDirty_each st [] = Some st"
  by (subst markDirty_each.simps) simp

lemma markDirty_each_Cons:
  "markDirty_each st (k # rest) =
     Option.bind
       (markDirty_each (st\<lparr>dirty := set_add k (dirty st)\<rparr>)
          (case dependencies st k of None \<Rightarrow> [] | Some ds \<Rightarrow> ds))
       (\<lambda>st'. markDirty_each st' rest)"
  by (subst markDirty_each.simps) simp

text \<open>
  Claim C7.  On a fresh cost state with the registrations \<open>a \<rightarrow> b\<close> and \<open>b \<rightarrow> c\<close> between three
  different keys, \<open>markDirty a\<close> returns, and the dirty keys are then exactly \<open>a\<close>, \<open>b\<close>, \<open>c\<close>,
  each once.  Reading the dirty keys and clearing them hands that set out once: after
  \<open>clearDirty\<close> the dirty keys are empty, and stay empty when read and cleared again.
\<close>

theorem markDirty_chain_drain:
  assumes "a \<noteq> b" and "b \<noteq> c" and "a \<noteq> c"
  shows "\<exists>st. markDirty a (addDependency b c (addDependency a b new_CostState)) = Some st
           \<and> getDirtyKeys st = [a, b, c]
           \<and> set (getDirtyKeys st) = {a, b, c}
           \<and> getDirtyKeys (clearDirty st) = []
           \<and> getDirtyKeys (clearDirty (clearDirty st)) = []"
  using assms
  by (simp add: markDirty_def addDependency_def new_CostState_def set_add_def
      markDirty_each_Cons markDirty_each_Nil getDirtyKeys_def clearDirty_def insert_commute)

theorem markDirty_chain_drain_witness:
  "\<exists>st. markDirty ''A'' (addDependency ''B'' ''C'' (addDependency ''A'' ''B'' new_CostState)) = Some st
           \<and> getDirtyKeys st = [''A'', ''B'', ''C'']
           \<and> set (getDirtyKeys st) = {''A'', ''B'', ''C''}
           \<and> getDirtyKeys (clearDirty st) = []
           \<and> getDirtyKeys (clearDirty (clearDirty st)) = []"
  using markDirty_chain_drain [of "''A''" "''B''" "''C''"] by simp

section \<open>Same-currency conversion\<close>

text \<open>
  Claim C10.  Converting an amount from a currency to the same currency returns the amount,
  whatever the rate table holds: in particular when the table is empty or has no rates for
  the period or the currency.
\<close>

theorem convert_same_currency: "convert rates amount c c period = Inr amount"
  by (simp add: convert.simps)

section \<open>BOM explosion\<close>

definition bom_rel :: "(string \<times> bom_item) list \<Rightarrow> (string \<times> string) set" where
  "bom_rel b = {(p, i). \<exists>item c. map_of b p = Some item \<and> c \<in> set (item_components item) \<and> i = comp_itemId c}"

lemma explodeBOM_hit: "cache productId = Some cached \<Longrightarrow>
   explodeBOM b productId depth visited cache = (Inr cached, cache)"
  by (simp add: explodeBOM.simps)

lemma explodeBOM_absent:
  "cache productId = None \<Longrightarrow> map_of b productId = None \<Longrightarrow> productId \<notin> visited \<Longrightarrow>
   explodeBOM b productId depth visited cache = (Inr (Explosion productId True [] depth), cache)"
  by (simp add: explodeBOM.simps)

lemma explodeBOM_result_cached:
  assumes "explodeBOM b productId depth visited cache = (Inr r, cache1)"
    and "productId \<in> fst ` set b \<or> cache productId \<noteq> None"
  shows "cache1 productId = Some r"
proof (cases "cache productId")
  case (Some cached)
  then show ?thesis using assms(1) by (simp add: explodeBOM_hit)
next
  case None
  then obtain product where p: "map_of b productId = Some product"
    using assms(2) by (metis domD dom_map_of_conv_image_fst)
  show ?thesis using assms(1) None p
    by (subst (asm) explodeBOM.simps) (auto split: if_splits prod.splits sum.splits)
qed

lemma explodeBOM_absent_unchanged:
  assumes "explodeBOM b productId depth visited cache = (Inr r, cache1)"
    and "productId \<notin> fst ` set b" and "cache productId = None"
  shows "r = Explosion productId True [] depth \<and> cache1 = cache \<and> productId \<notin> visited"
proof -
  have "map_of b productId = None" using assms(2) by (simp add: map_of_eq_None_iff)
  then show ?thesis using assms(1,3)
    by (subst (asm) explodeBOM.simps) (auto split: if_splits)
qed

lemma explode_no_throw:
  "acyclic (bom_rel b) \<Longrightarrow> \<forall>v \<in> visited. (productId, v) \<notin> (bom_rel b)\<^sup>* \<Longrightarrow>
     (\<exists>r. fst (explodeBOM b productId depth visited cache) = Inr r)
     \<and> dom (snd (explodeBOM b productId depth visited cache)) \<subseteq> dom cache \<union> fst ` set b"
  "acyclic (bom_rel b) \<Longrightarrow> \<forall>c \<in> set cs. \<forall>v \<in> visited. (comp_itemId c, v) \<notin> (bom_rel b)\<^sup>* \<Longrightarrow>
     (\<exists>rs. fst (explode_components b cs depth visited cache) = Inr rs)
     \<and> dom (snd (explode_components b cs depth visited cache)) \<subseteq> dom cache \<union> fst ` set b"
proof (induction b productId depth visited cache and b cs depth visited cache
    rule: explodeBOM_explode_components.induct)
  case (1 b productId depth visited cache)
  show ?case
  proof (cases "cache productId")
    case (Some cached)
    then show ?thesis by (simp add: explodeBOM_hit)
  next
    case None
    have nv: "productId \<notin> visited" using "1.prems"(2) by auto
    show ?thesis
    proof (cases "map_of b productId")
      case n: None
      then show ?thesis using None nv by (simp add: explodeBOM_absent)
    next
      case (Some product)
      have key: "productId \<in> fst ` set b" using Some by (metis domI dom_map_of_conv_image_fst)
      show ?thesis
      proof (cases "item_components product = []")
        case True
        then have E: "explodeBOM b productId depth visited cache =
            (Inr (Explosion productId True [] depth), cache(productId \<mapsto> Explosion productId True [] depth))"
          using None nv Some by (simp add: explodeBOM.simps)
        have D: "dom (cache(productId \<mapsto> Explosion productId True [] depth)) \<subseteq> dom cache \<union> fst ` set b"
          using key by auto
        show ?thesis unfolding E fst_conv snd_conv using D by blast
      next
        case False
        have pre: "\<forall>c \<in> set (item_components product). \<forall>v \<in> insert productId visited.
                     (comp_itemId c, v) \<notin> (bom_rel b)\<^sup>*"
        proof (intro ballI)
          fix c v assume c: "c \<in> set (item_components product)" and v: "v \<in> insert productId visited"
          have e: "(productId, comp_itemId c) \<in> bom_rel b" using Some c by (auto simp: bom_rel_def)
          show "(comp_itemId c, v) \<notin> (bom_rel b)\<^sup>*"
          proof
            assume r: "(comp_itemId c, v) \<in> (bom_rel b)\<^sup>*"
            show False
            proof (cases "v = productId")
              case True
              then have "(productId, productId) \<in> (bom_rel b)\<^sup>+" using e r by (simp add: rtrancl_into_trancl2)
              then show False using "1.prems"(1) by (simp add: acyclic_def)
            next
              case False
              then have "v \<in> visited" using v by simp
              moreover have "(productId, v) \<in> (bom_rel b)\<^sup>*" using e r by (simp add: converse_rtrancl_into_rtrancl)
              ultimately show False using "1.prems"(2) by blast
            qed
          qed
        qed
        from "1.IH"[OF None nv Some False "1.prems"(1) pre]
        obtain rs where rs: "fst (explode_components b (item_components product) (depth + 1)
                                   (insert productId visited) cache) = Inr rs"
          and dm: "dom (snd (explode_components b (item_components product) (depth + 1)
                                   (insert productId visited) cache)) \<subseteq> dom cache \<union> fst ` set b"
          by blast
        obtain cache' where ec: "explode_components b (item_components product) (depth + 1)
                                   (insert productId visited) cache = (Inr rs, cache')"
          using rs by (metis prod.collapse)
        then have D: "dom (cache'(productId \<mapsto> Explosion productId False rs depth)) \<subseteq> dom cache \<union> fst ` set b"
          using dm key by auto
        have E: "explodeBOM b productId depth visited cache =
            (Inr (Explosion productId False rs depth), cache'(productId \<mapsto> Explosion productId False rs depth))"
          using None nv Some False ec by (simp add: explodeBOM.simps)
        show ?thesis unfolding E fst_conv snd_conv using D by blast
      qed
    qed
  qed
next
  case (2 b depth visited cache)
  then show ?case by (simp add: explodeBOM.simps)
next
  case (3 b c cs depth visited cache)
  have p1: "\<forall>v \<in> visited. (comp_itemId c, v) \<notin> (bom_rel b)\<^sup>*" using "3.prems"(2) by simp
  from "3.IH"(1)[OF "3.prems"(1) p1]
  obtain r where r: "fst (explodeBOM b (comp_itemId c) depth visited cache) = Inr r"
    and dm: "dom (snd (explodeBOM b (comp_itemId c) depth visited cache)) \<subseteq> dom cache \<union> fst ` set b"
    by blast
  obtain cache' where e1: "explodeBOM b (comp_itemId c) depth visited cache = (Inr r, cache')"
    using r by (metis prod.collapse)
  have p2: "\<forall>c \<in> set cs. \<forall>v \<in> visited. (comp_itemId c, v) \<notin> (bom_rel b)\<^sup>*" using "3.prems"(2) by simp
  from "3.IH"(2)[OF e1[symmetric] refl "3.prems"(1) p2]
  obtain rs where rs: "fst (explode_components b cs depth visited cache') = Inr rs"
    and dm2: "dom (snd (explode_components b cs depth visited cache')) \<subseteq> dom cache' \<union> fst ` set b"
    by blast
  obtain cache'' where e2: "explode_components b cs depth visited cache' = (Inr rs, cache'')"
    using rs by (metis prod.collapse)
  have "dom cache' \<subseteq> dom cache \<union> fst ` set b" using dm e1 by simp
  moreover have "dom cache'' \<subseteq> dom cache' \<union> fst ` set b" using dm2 e2 by simp
  ultimately have "dom cache'' \<subseteq> dom cache \<union> fst ` set b" by blast
  then show ?case using e1 e2 by (simp add: explodeBOM.simps)
qed

lemma getNeighbors_map_set:
  "getNeighbors (map_set k es g) a = (if a = k then es else getNeighbors g a)"
  by (simp add: getNeighbors_def map_of_map_set)

lemma getNeighbors_addNode: "getNeighbors (addNode n g) a = getNeighbors g a"
proof (cases "map_has g n")
  case True
  then show ?thesis by (simp add: addNode_def)
next
  case False
  then have "n \<notin> fst ` set g" by (simp add: map_has_def)
  then have "getNeighbors g n = []" by (rule getNeighbors_absent)
  then show ?thesis using False by (simp add: addNode_def getNeighbors_map_set)
qed

lemma edge_rel_addNode: "wf_graph g \<Longrightarrow> edge_rel (addNode n g) = edge_rel g"
proof -
  assume wf: "wf_graph g"
  then have d: "distinct (map fst g)" and d': "distinct (map fst (addNode n g))"
    using wf_graph_addNode[OF wf, of n] by (simp_all add: wf_graph_def)
  show ?thesis
    using edge_rel_iff[OF d] edge_rel_iff[OF d'] by (auto simp: getNeighbors_addNode)
qed

lemma edge_rel_addEdge:
  assumes wf: "wf_graph g"
  shows "edge_rel (addEdge u v md g) = insert (u, v) (edge_rel g)"
proof -
  let ?g2 = "addNode v (addNode u g)"
  have d: "distinct (map fst g)" using wf by (simp add: wf_graph_def)
  have d': "distinct (map fst (addEdge u v md g))"
    using wf_graph_addEdge[OF wf, of u v md] by (simp add: wf_graph_def)
  have nb: "\<And>a. getNeighbors (addEdge u v md g) a
              = (if a = u then getNeighbors g u @ [(v, md)] else getNeighbors g a)"
    by (simp add: addEdge_def Let_def getNeighbors_map_set getNeighbors_addNode)
  have "\<And>a b. (a, b) \<in> edge_rel (addEdge u v md g) \<longleftrightarrow> (a, b) = (u, v) \<or> (a, b) \<in> edge_rel g"
  proof -
    fix a b
    show "(a, b) \<in> edge_rel (addEdge u v md g) \<longleftrightarrow> (a, b) = (u, v) \<or> (a, b) \<in> edge_rel g"
      unfolding edge_rel_iff[OF d] edge_rel_iff[OF d'] nb by (cases "a = u") auto
  qed
  then show ?thesis by auto
qed

definition index_ok ::
  "bom_item list \<Rightarrow> (string \<times> bom_item) list \<times> (string, bom_edge) graph \<Rightarrow> bool" where
  "index_ok items s =
     (wf_graph (snd s)
      \<and> (\<forall>p item. map_of (fst s) p = Some item \<longrightarrow> item \<in> set items \<and> item_productId item = p)
      \<and> (\<forall>item c. item \<in> set items \<longrightarrow> c \<in> set (item_components item)
            \<longrightarrow> (item_productId item, comp_itemId c) \<in> edge_rel (snd s)))"

lemma fold_addEdge_edges:
  "wf_graph g \<Longrightarrow>
   wf_graph (fold (\<lambda>c g. addEdge p (comp_itemId c) (md c) g) cs g)
   \<and> edge_rel (fold (\<lambda>c g. addEdge p (comp_itemId c) (md c) g) cs g)
       = edge_rel g \<union> {(p, comp_itemId c) | c. c \<in> set cs}"
proof (induction cs arbitrary: g)
  case Nil
  then show ?case by simp
next
  case (Cons c cs)
  have w: "wf_graph (addEdge p (comp_itemId c) (md c) g)" using Cons.prems by (rule wf_graph_addEdge)
  from Cons.IH[OF w] show ?case using edge_rel_addEdge[OF Cons.prems, of p "comp_itemId c" "md c"]
    by auto
qed

lemma index_item_ok:
  assumes "index_ok items s"
  shows "index_ok (items @ [item]) (index_item item s)"
proof -
  let ?g0 = "addNode (item_productId item) (snd s)"
  let ?md = "\<lambda>c. \<lparr>be_quantity = comp_quantity c, be_scrapRate = scrapRate_or_0 c, be_unit = comp_unit c\<rparr>"
  have w0: "wf_graph ?g0" using assms by (simp add: index_ok_def wf_graph_addNode)
  have e0: "edge_rel ?g0 = edge_rel (snd s)" using assms by (simp add: index_ok_def edge_rel_addNode)
  from fold_addEdge_edges[OF w0, of "item_productId item" ?md "item_components item"]
  have w: "wf_graph (snd (index_item item s))"
    and e: "edge_rel (snd (index_item item s))
            = edge_rel (snd s) \<union> {(item_productId item, comp_itemId c) | c. c \<in> set (item_components item)}"
    by (simp_all add: index_item_def e0)
  have m: "map_of (fst (index_item item s)) = (map_of (fst s))(item_productId item \<mapsto> item)"
    by (simp add: index_item_def map_of_map_set)
  show ?thesis unfolding index_ok_def
  proof (intro conjI allI impI)
    show "wf_graph (snd (index_item item s))" by (rule w)
  next
    fix p it assume "map_of (fst (index_item item s)) p = Some it"
    then show "it \<in> set (items @ [item])" "item_productId it = p"
      using assms by (auto simp: m index_ok_def split: if_splits)
  next
    fix it c assume "it \<in> set (items @ [item])" "c \<in> set (item_components it)"
    then show "(item_productId it, comp_itemId c) \<in> edge_rel (snd (index_item item s))"
      using assms unfolding e index_ok_def by auto
  qed
qed

lemma fold_index_item_ok:
  "index_ok seen s \<Longrightarrow> index_ok (seen @ items) (fold index_item items s)"
proof (induction items arbitrary: seen s)
  case Nil
  then show ?case by simp
next
  case (Cons item items)
  from Cons.IH[OF index_item_ok[OF Cons.prems, of item]] show ?case by simp
qed

lemma detectCycles_none_acyclic:
  "wf_graph g \<Longrightarrow> detectCycles g = Some [] \<Longrightarrow> acyclic (edge_rel g)"
  using detectCycles_cyclic[of g] by auto

lemma new_BOMProcessor_acyclic:
  assumes "new_BOMProcessor billOfMaterials = Some (Inr bp)"
  shows "acyclic (bom_rel (bom bp))" and "explosionCache bp = Map.empty"
proof -
  let ?s = "fold index_item billOfMaterials ([], new_Graph)"
  have "index_ok [] ([], new_Graph :: (string, bom_edge) graph)"
    by (simp add: index_ok_def wf_graph_new)
  from fold_index_item_ok[OF this, of billOfMaterials] have ok: "index_ok billOfMaterials ?s" by simp
  have dc: "detectCycles (snd ?s) = Some []" and bp: "bp = \<lparr>bom = fst ?s, bomGraph = snd ?s, explosionCache = Map.empty\<rparr>"
    using assms by (auto simp: new_BOMProcessor_def Let_def split: option.splits if_splits)
  have "acyclic (edge_rel (snd ?s))" using ok dc by (simp add: index_ok_def detectCycles_none_acyclic)
  moreover have "bom_rel (fst ?s) \<subseteq> edge_rel (snd ?s)"
    using ok unfolding bom_rel_def index_ok_def by blast
  ultimately show "acyclic (bom_rel (bom bp))" unfolding bp by (simp add: acyclic_subset)
  show "explosionCache bp = Map.empty" by (simp add: bp)
qed

text \<open>
  Claim C6, as the code has it.  On a processor that passed the validation, with a cache that
  holds entries of BOM products only (as every cache filled by \<open>explodeBOM\<close> does), a call of
  \<open>explodeBOM\<close> with the default arguments returns an explosion and does not throw; a second
  call on the cache the first one left returns the same explosion and leaves the cache as
  it is.  When the product is an entry of the BOM, the second call is answered from the
  cache: whatever the BOM, the depth and the visited set are, it returns the stored
  explosion.  When it is not an entry, nothing is stored and the second call builds the
  same raw-material leaf again.
\<close>

theorem explodeBOM_idempotent:
  assumes "new_BOMProcessor billOfMaterials = Some (Inr bp)"
    and "dom cache \<subseteq> fst ` set (bom bp)"
  shows "\<exists>r cache1.
           explodeBOM (bom bp) productId 0 {} cache = (Inr r, cache1)
         \<and> explodeBOM (bom bp) productId 0 {} cache1 = (Inr r, cache1)
         \<and> dom cache1 \<subseteq> fst ` set (bom bp)
         \<and> (productId \<in> fst ` set (bom bp) \<longrightarrow>
               cache1 productId = Some r
               \<and> (\<forall>b' depth visited. explodeBOM b' productId depth visited cache1 = (Inr r, cache1)))
         \<and> (productId \<notin> fst ` set (bom bp) \<longrightarrow>
               cache1 productId = None \<and> cache1 = cache \<and> r = Explosion productId True [] 0)"
proof -
  let ?b = "bom bp"
  have ac: "acyclic (bom_rel ?b)" using assms(1) by (rule new_BOMProcessor_acyclic)
  from explode_no_throw(1)[OF ac, of "{}" productId 0 cache]
  obtain r where r: "fst (explodeBOM ?b productId 0 {} cache) = Inr r"
    and dm: "dom (snd (explodeBOM ?b productId 0 {} cache)) \<subseteq> dom cache \<union> fst ` set ?b"
    by auto
  obtain cache1 where e: "explodeBOM ?b productId 0 {} cache = (Inr r, cache1)"
    using r by (metis prod.collapse)
  have d1: "dom cache1 \<subseteq> fst ` set ?b" using dm e assms(2) by auto
  show ?thesis
  proof (cases "productId \<in> fst ` set ?b")
    case True
    then have c: "cache1 productId = Some r" using explodeBOM_result_cached[OF e] by simp
    then have "\<forall>b' depth visited. explodeBOM b' productId depth visited cache1 = (Inr r, cache1)"
      by (simp add: explodeBOM_hit)
    then show ?thesis using e d1 c True by blast
  next
    case False
    then have n: "cache productId = None" using assms(2) by auto
    from explodeBOM_absent_unchanged[OF e False n]
    have "r = Explosion productId True [] 0" "cache1 = cache" by simp_all
    then show ?thesis using e d1 n False by auto
  qed
qed

definition labour_bom :: "bom_item list" where
  "labour_bom =
     [\<lparr>item_productId = ''P'', item_components =
          [\<lparr>comp_itemId = ''Q'', comp_quantity = 2, comp_scrapRate = Some (1 / 100), comp_unit = None\<rparr>,
           \<lparr>comp_itemId = ''L'', comp_quantity = 1, comp_scrapRate = None, comp_unit = Some ''hours''\<rparr>]\<rparr>,
      \<lparr>item_productId = ''Q'', item_components = []\<rparr>]"

definition labour_processor :: BOMProcessor where
  "labour_processor =
     \<lparr>bom = [(''P'', labour_bom ! 0), (''Q'', labour_bom ! 1)],
      bomGraph = [(''P'', [(''Q'', \<lparr>be_quantity = 2, be_scrapRate = 1 / 100, be_unit = None\<rparr>),
                           (''L'', \<lparr>be_quantity = 1, be_scrapRate = 0, be_unit = Some ''hours''\<rparr>)]),
                  (''Q'', []), (''L'', [])],
      explosionCache = Map.empty\<rparr>"

lemma new_labour_processor: "new_BOMProcessor labour_bom = Some (Inr labour_processor)"
  by (simp add: new_BOMProcessor_def labour_bom_def labour_processor_def index_item_def
      scrapRate_or_0_def addEdge_def addNode_def map_has_def getNeighbors_def new_Graph_def
      detectCycles_def getNodes_def detect_dfs_def dfs_neighbors_Cons dfs_neighbors_Nil
      enter_def leave_def Let_def)

theorem explodeBOM_idempotent_witness:
  "new_BOMProcessor labour_bom = Some (Inr labour_processor)
   \<and> dom (explosionCache labour_processor) \<subseteq> fst ` set (bom labour_processor)
   \<and> (\<exists>r cache1.
           explodeBOM (bom labour_processor) ''P'' 0 {} (explosionCache labour_processor) = (Inr r, cache1)
         \<and> explodeBOM (bom labour_processor) ''P'' 0 {} cache1 = (Inr r, cache1)
         \<and> dom cache1 \<subseteq> fst ` set (bom labour_processor)
         \<and> (''P'' \<in> fst ` set (bom labour_processor) \<longrightarrow>
               cache1 ''P'' = Some r
               \<and> (\<forall>b' depth visited. explodeBOM b' ''P'' depth visited cache1 = (Inr r, cache1)))
         \<and> (''P'' \<notin> fst ` set (bom labour_processor) \<longrightarrow>
               cache1 ''P'' = None \<and> cache1 = explosionCache labour_processor
               \<and> r = Explosion ''P'' True [] 0))"
proof -
  have d: "dom (explosionCache labour_processor) \<subseteq> fst ` set (bom labour_processor)"
    by (simp add: labour_processor_def)
  show ?thesis
    using new_labour_processor d
      explodeBOM_idempotent[OF new_labour_processor d, of "''P''"] by simp
qed

text \<open>
  Claim C6, as stated, fails for an item that is no entry of the BOM, such as the labour item
  \<open>L\<close> of product \<open>P\<close>: the call returns its leaf and the cache has no entry for it afterwards,
  so the second call is not answered from the cache.
\<close>

theorem explodeBOM_absent_not_cached:
  "new_BOMProcessor labour_bom = Some (Inr labour_processor)
   \<and> fst (explodeBOM (bom labour_processor) ''L'' 0 {} (explosionCache labour_processor))
       = Inr (Explosion ''L'' True [] 0)
   \<and> snd (explodeBOM (bom labour_processor) ''L'' 0 {} (explosionCache labour_processor)) ''L'' = None"
  using new_labour_processor
  by (simp add: explodeBOM.simps labour_processor_def)

section \<open>A small calculator\<close>

text \<open>
  The examples use one product \<open>P\<close> made of two units of the raw material \<open>Q\<close> and one hour of
  labour \<open>L\<close>, a factory \<open>MFG\<close>, a hub, two distribution entities, of which \<open>ISLE\<close> has no
  route into it, and an IP holder that charges \<open>MFG\<close> a royalty of 4 percent.  The direct route
  from \<open>MFG\<close> to \<open>DIST\<close> has a markup of 50 percent, the route over the hub two markups of 10
  percent.  The cost state holds the base costs of \<open>Q\<close> (20) and \<open>P\<close> (40 + 60) at \<open>MFG\<close>.
\<close>

definition demo_entities :: "entity list" where
  "demo_entities =
     [\<lparr>ent_id = ''MFG'', ent_type = ''manufacturing'', ent_country = ''CN'', ent_currency = ''USD''\<rparr>,
      \<lparr>ent_id = ''HUB'', ent_type = ''headquarters'', ent_country = ''CN'', ent_currency = ''USD''\<rparr>,
      \<lparr>ent_id = ''DIST'', ent_type = ''distribution'', ent_country = ''US'', ent_currency = ''USD''\<rparr>,
      \<lparr>ent_id = ''ISLE'', ent_type = ''distribution'', ent_country = ''US'', ent_currency = ''USD''\<rparr>,
      \<lparr>ent_id = ''IP'', ent_type = ''ip_holder'', ent_country = ''IE'', ent_currency = ''USD''\<rparr>]"

definition demo_routes :: "route list" where
  "demo_routes =
     [\<lparr>route_from = ''MFG'', route_to = ''DIST'', route_itemTypes = [''finished-good''],
       route_markupType = ''cost-plus'', route_markupValue = 1 / 2\<rparr>,
      \<lparr>route_from = ''MFG'', route_to = ''HUB'', route_itemTypes = [''finished-good''],
       route_markupType = ''cost-plus'', route_markupValue = 1 / 10\<rparr>,
      \<lparr>route_from = ''HUB'', route_to = ''DIST'', route_itemTypes = [''finished-good''],
       route_markupType = ''cost-plus'', route_markupValue = 1 / 10\<rparr>,
      \<lparr>route_from = ''IP'', route_to = ''MFG'', route_itemTypes = [''royalty''],
       route_markupType = ''revenue-percent'', route_markupValue = 4 / 100\<rparr>]"

definition demo_rule :: "string \<Rightarrow> string \<Rightarrow> string \<Rightarrow> string list \<Rightarrow> rule" where
  "demo_rule rid ty transferType deps =
     \<lparr>rule_id = rid, rule_type = ty, rule_dependencies = deps, rule_burdenRate = 1 / 2,
      rule_baseRules = [], rule_percentage = 0, rule_poolId = [], rule_lookbackPeriods = None,
      rule_transferType = transferType\<rparr>"

definition demo_rules :: "rule list" where
  "demo_rules =
     [demo_rule ''R1'' ''labor-burden'' [] [],
      demo_rule ''R2'' ''transfer-price'' ''royalty'' [''R1'']]"

definition demo_bom :: "bom_item list" where
  "demo_bom =
     [\<lparr>item_productId = ''P'', item_components =
          [\<lparr>comp_itemId = ''Q'', comp_quantity = 2, comp_scrapRate = None, comp_unit = None\<rparr>,
           \<lparr>comp_itemId = ''L'', comp_quantity = 1, comp_scrapRate = None, comp_unit = Some ''hours''\<rparr>]\<rparr>,
      \<lparr>item_productId = ''Q'', item_components = []\<rparr>]"

definition demo_calc :: "rule list \<Rightarrow> CostCalculator" where
  "demo_calc allocationRules =
     \<lparr>costState =
        setCost ''P'' ''MFG'' ''2024-Q4'' (new_breakdown 40 60 [])
          (setCost ''Q'' ''MFG'' ''2024-Q4'' (new_breakdown 20 0 []) new_CostState),
      bomProcessor = \<lparr>bom = map (\<lambda>i. (item_productId i, i)) demo_bom, bomGraph = [],
                       explosionCache = Map.empty\<rparr>,
      exchangeRates = [],
      entityManager = new_EntityManager demo_entities demo_routes,
      ruleEngine = \<lparr>rules = map (\<lambda>r. (rule_id r, r)) allocationRules, ruleGraph = [],
                     executionOrder = map rule_id allocationRules\<rparr>,
      periodCosts = [''Q:MFG:2024-Q4'' \<mapsto> \<lparr>ic_unit = 20, ic_currency = ''USD''\<rparr>,
                     ''L:MFG:2024-Q4'' \<mapsto> \<lparr>ic_unit = 60, ic_currency = ''USD''\<rparr>],
      productionVolumes = [], costPools = [], transferRoutes = demo_routes, warnings = []\<rparr>"



section \<open>Royalty cycle resolution\<close>

lemmas demo_defs =
  demo_calc_def demo_bom_def demo_routes_def demo_rules_def demo_rule_def demo_entities_def
  calculateBaseCost_def getProduct_def base_component_def getItemCost_def convert.simps
  getCost_def setCost_def getCostKey_def new_breakdown_def scrapRate_or_0_def or_else_def
  getRule_def getExecutionOrder_def applyRule_def rule_effect_def charge_routes_def
  charge_fees_def setRuleOutput_def getRuleKey_def current_total_def new_CostState_def Let_def

lemma demo_current_total:
  "current_total (demo_calc demo_rules) ''P'' ''MFG'' ''2024-Q4'' = 100"
  by (simp add: demo_defs)

lemma demo_royalty_iteration:
  "\<exists>calc1. royalty_iteration (demo_calc demo_rules) ''P'' ''MFG'' ''2024-Q4'' ''USD'' = Inr calc1
      \<and> current_total calc1 ''P'' ''MFG'' ''2024-Q4'' = 104"
  by (simp add: royalty_iteration_def demo_defs)

lemma royalty_loop_stop:
  "\<not> (\<bar>currentCost - prevCost\<bar> > tolerance \<and> of_nat iters < maxIterations) \<Longrightarrow>
   royalty_loop productId entityId period targetCurrency maxIterations tolerance
       prevCost currentCost iters calc = Inr (prevCost, currentCost, iters, calc)"
  by (subst royalty_loop.simps) (rule if_not_P)

lemma royalty_loop_step:
  "\<bar>currentCost - prevCost\<bar> > tolerance \<and> of_nat iters < maxIterations \<Longrightarrow>
   royalty_loop productId entityId period targetCurrency maxIterations tolerance
       prevCost currentCost iters calc =
     (case royalty_iteration calc productId entityId period targetCurrency of
        Inl e \<Rightarrow> Inl e
      | Inr calc' \<Rightarrow>
          royalty_loop productId entityId period targetCurrency maxIterations tolerance
            currentCost (current_total calc' productId entityId period) (iters + 1) calc')"
  by (subst royalty_loop.simps) (rule if_P)

lemma cap_reached:
  fixes cap :: rat
  assumes "k = 0 \<or> of_nat (k - 1) < cap" and "cap \<le> of_nat k"
  shows "k = nat \<lceil>cap\<rceil>"
proof (cases k)
  case 0
  then have "cap \<le> 0" using assms(2) by simp
  then have "\<lceil>cap\<rceil> \<le> 0" by (simp add: ceiling_le_zero)
  then show ?thesis using 0 by simp
next
  case (Suc j)
  then have "of_int (int j) < cap" "cap \<le> of_int (int j + 1)" using assms by simp_all
  then have "\<lceil>cap\<rceil> = int j + 1" by (intro ceiling_unique) simp_all
  then show ?thesis using Suc by simp
qed

lemma cap_bound:
  fixes cap :: rat
  assumes "of_nat k < cap"
  shows "Suc k \<le> nat \<lceil>cap\<rceil>"
proof -
  have "of_int (int k) < cap" using assms by simp
  then have "int k < \<lceil>cap\<rceil>" by (simp add: less_ceiling_iff)
  then show ?thesis by simp
qed

lemma royalty_loop_run:
  assumes "nat \<lceil>maxIterations\<rceil> - k < m"
    and "royalty_run calc productId entityId period targetCurrency k = Inr calc_k"
    and "\<forall>i<k. tolerance < cost_change calc productId entityId period targetCurrency i
                \<and> of_nat i < maxIterations"
  shows "\<exists>n. n \<le> nat \<lceil>maxIterations\<rceil>
           \<and> (\<forall>i<n. tolerance < cost_change calc productId entityId period targetCurrency i)
           \<and> (case royalty_run calc productId entityId period targetCurrency n of
                Inl err \<Rightarrow>
                  royalty_loop productId entityId period targetCurrency maxIterations tolerance
                    (cost_before calc productId entityId period targetCurrency k)
                    (cost_after calc productId entityId period targetCurrency k) k calc_k = Inl err
              | Inr calc_n \<Rightarrow>
                  royalty_loop productId entityId period targetCurrency maxIterations tolerance
                    (cost_before calc productId entityId period targetCurrency k)
                    (cost_after calc productId entityId period targetCurrency k) k calc_k
                  = Inr (cost_before calc productId entityId period targetCurrency n,
                         cost_after calc productId entityId period targetCurrency n, n, calc_n)
                  \<and> (tolerance < cost_change calc productId entityId period targetCurrency n
                       \<longrightarrow> n = nat \<lceil>maxIterations\<rceil>))"
  using assms
proof (induction m arbitrary: k calc_k)
  case 0
  then show ?case by simp
next
  case (Suc m)
  let ?change = "cost_change calc productId entityId period targetCurrency"
  let ?after = "cost_after calc productId entityId period targetCurrency"
  let ?before = "cost_before calc productId entityId period targetCurrency"
  let ?run = "royalty_run calc productId entityId period targetCurrency"
  have run: "?run k = Inr calc_k" by (rule Suc.prems(2))
  have ch: "\<bar>?after k - ?before k\<bar> = ?change k" by (simp add: cost_change_def)
  have kb: "k \<le> nat \<lceil>maxIterations\<rceil>"
  proof (cases k)
    case 0
    then show ?thesis by simp
  next
    case (Suc j)
    then have "of_nat j < maxIterations" using Suc.prems(3) by simp
    then show ?thesis unfolding Suc by (rule cap_bound)
  qed
  have prev: "k = 0 \<or> of_nat (k - 1) < maxIterations"
    using Suc.prems(3) by (cases k) simp_all
  show ?case
  proof (cases "tolerance < ?change k \<and> of_nat k < maxIterations")
    case False
    have stop: "royalty_loop productId entityId period targetCurrency maxIterations tolerance
                  (?before k) (?after k) k calc_k = Inr (?before k, ?after k, k, calc_k)"
      by (rule royalty_loop_stop) (use False ch in simp)
    have "tolerance < ?change k \<longrightarrow> k = nat \<lceil>maxIterations\<rceil>"
      using False cap_reached[OF prev] by auto
    then show ?thesis
      using kb Suc.prems(3) stop run by (intro exI[of _ k]) simp
  next
    case True
    have step: "royalty_loop productId entityId period targetCurrency maxIterations tolerance
                  (?before k) (?after k) k calc_k =
                (case royalty_iteration calc_k productId entityId period targetCurrency of
                   Inl e \<Rightarrow> Inl e
                 | Inr calc' \<Rightarrow>
                     royalty_loop productId entityId period targetCurrency maxIterations tolerance
                       (?after k) (current_total calc' productId entityId period) (k + 1) calc')"
      by (rule royalty_loop_step) (use True ch in simp)
    have sb: "Suc k \<le> nat \<lceil>maxIterations\<rceil>" using True cap_bound by blast
    have all: "\<forall>i<Suc k. tolerance < ?change i \<and> of_nat i < maxIterations"
      using True Suc.prems(3) by (auto simp: less_Suc_eq)
    show ?thesis
    proof (cases "royalty_iteration calc_k productId entityId period targetCurrency")
      case (Inl err)
      then have "?run (Suc k) = Inl err" using run by simp
      then show ?thesis
        using sb all step Inl by (intro exI[of _ "Suc k"]) simp
    next
      case (Inr calc')
      then have run': "?run (Suc k) = Inr calc'" using run by simp
      have a: "?after (Suc k) = current_total calc' productId entityId period"
        by (simp add: cost_after_def run' del: royalty_run.simps)
      have b: "?before (Suc k) = ?after k" by (simp add: cost_before_def)
      have m: "nat \<lceil>maxIterations\<rceil> - Suc k < m" using Suc.prems(1) sb by simp
      have step': "royalty_loop productId entityId period targetCurrency maxIterations tolerance
                  (?before k) (?after k) k calc_k =
               royalty_loop productId entityId period targetCurrency maxIterations tolerance
                  (?before (Suc k)) (?after (Suc k)) (Suc k) calc'"
        unfolding step Inr a b by simp
      from Suc.IH[OF m run' all] show ?thesis
        unfolding step' .
    qed
  qed
qed

text \<open>
  Claim C9.  Every call of \<open>resolveRoyaltyCycle\<close> follows the run of its iterations up to some
  number \<open>n\<close> of them, at most the cap rounded up (and 0 for a negative cap), the tolerance
  not being met before \<open>n\<close>.  When an iteration of that run raised an error (a missing
  exchange rate, an id of the execution order that is no rule), the call raises that error.
  Otherwise it returns the record with \<open>n\<close> as \<open>iterations\<close>, the cost stored after the
  \<open>n\<close>-th iteration as \<open>finalCost\<close>, and \<open>converged\<close> true exactly when that cost is within
  the tolerance of the cost stored one iteration earlier; when the tolerance is not met,
  \<open>n\<close> is the cap rounded up and \<open>converged\<close> is false: no error stands for a missing
  convergence.
\<close>

theorem resolveRoyaltyCycle_reports_convergence:
  "\<exists>n. n \<le> nat \<lceil>maxIterations\<rceil>
      \<and> (\<forall>i<n. tolerance < cost_change calc productId entityId period targetCurrency i)
      \<and> (case royalty_run calc productId entityId period targetCurrency n of
           Inl err \<Rightarrow>
             resolveRoyaltyCycle calc productId entityId period targetCurrency maxIterations tolerance
               = Inl err
         | Inr calc_n \<Rightarrow>
             resolveRoyaltyCycle calc productId entityId period targetCurrency maxIterations tolerance
               = Inr (\<lparr>converged = (cost_change calc productId entityId period targetCurrency n \<le> tolerance),
                       iterations = n,
                       finalCost = cost_after calc productId entityId period targetCurrency n\<rparr>, calc_n)
             \<and> (tolerance < cost_change calc productId entityId period targetCurrency n
                  \<longrightarrow> n = nat \<lceil>maxIterations\<rceil>))"
proof -
  have r0: "royalty_run calc productId entityId period targetCurrency 0 = Inr calc" by simp
  have a0: "cost_after calc productId entityId period targetCurrency 0
              = current_total calc productId entityId period"
    by (simp add: cost_after_def)
  have b0: "cost_before calc productId entityId period targetCurrency 0 = 0"
    by (simp add: cost_before_def)
  have "nat \<lceil>maxIterations\<rceil> - 0 < Suc (nat \<lceil>maxIterations\<rceil>)" by simp
  from royalty_loop_run[OF this r0, of tolerance] obtain n where
    n: "n \<le> nat \<lceil>maxIterations\<rceil>"
      "\<forall>i<n. tolerance < cost_change calc productId entityId period targetCurrency i"
      "case royalty_run calc productId entityId period targetCurrency n of
         Inl err \<Rightarrow>
           royalty_loop productId entityId period targetCurrency maxIterations tolerance
             0 (current_total calc productId entityId period) 0 calc = Inl err
       | Inr calc_n \<Rightarrow>
           royalty_loop productId entityId period targetCurrency maxIterations tolerance
             0 (current_total calc productId entityId period) 0 calc
           = Inr (cost_before calc productId entityId period targetCurrency n,
                  cost_after calc productId entityId period targetCurrency n, n, calc_n)
           \<and> (tolerance < cost_change calc productId entityId period targetCurrency n
                \<longrightarrow> n = nat \<lceil>maxIterations\<rceil>)"
    unfolding a0 b0 by auto
  show ?thesis
  proof (intro exI[of _ n] conjI n(1) n(2))
    show "case royalty_run calc productId entityId period targetCurrency n of
           Inl err \<Rightarrow>
             resolveRoyaltyCycle calc productId entityId period targetCurrency maxIterations tolerance
               = Inl err
         | Inr calc_n \<Rightarrow>
             resolveRoyaltyCycle calc productId entityId period targetCurrency maxIterations tolerance
               = Inr (\<lparr>converged = (cost_change calc productId entityId period targetCurrency n \<le> tolerance),
                       iterations = n,
                       finalCost = cost_after calc productId entityId period targetCurrency n\<rparr>, calc_n)
             \<and> (tolerance < cost_change calc productId entityId period targetCurrency n
                  \<longrightarrow> n = nat \<lceil>maxIterations\<rceil>)"
      using n(3)
      by (cases "royalty_run calc productId entityId period targetCurrency n")
         (simp_all add: resolveRoyaltyCycle_def cost_change_def)
  qed
qed

lemma demo_two_iterations:
  "\<exists>calc1 calc2.
      royalty_iteration (demo_calc demo_rules) ''P'' ''MFG'' ''2024-Q4'' ''USD'' = Inr calc1
    \<and> current_total calc1 ''P'' ''MFG'' ''2024-Q4'' = 104
    \<and> royalty_iteration calc1 ''P'' ''MFG'' ''2024-Q4'' ''USD'' = Inr calc2
    \<and> current_total calc2 ''P'' ''MFG'' ''2024-Q4'' = 104"
  by (simp add: royalty_iteration_def demo_defs)

lemma demo_no_rate:
  "royalty_iteration (demo_calc demo_rules) ''P'' ''MFG'' ''2024-Q4'' ''EUR''
     = Inl (NoExchangeRate ''2024-Q4'')"
  by (simp add: royalty_iteration_def demo_defs nearestPeriod_def falsy_string_def)

theorem resolveRoyaltyCycle_reports_convergence_witness:
  "map_sum id fst (resolveRoyaltyCycle (demo_calc demo_rules) ''P'' ''MFG'' ''2024-Q4'' ''USD'' 1 (1 / 100))
     = Inr \<lparr>converged = False, iterations = 1, finalCost = 104\<rparr>"
proof -
  let ?calc = "demo_calc demo_rules"
  obtain calc1 where it: "royalty_iteration ?calc ''P'' ''MFG'' ''2024-Q4'' ''USD'' = Inr calc1"
    and t1: "current_total calc1 ''P'' ''MFG'' ''2024-Q4'' = 104"
    using demo_royalty_iteration by blast
  have r0: "royalty_run ?calc ''P'' ''MFG'' ''2024-Q4'' ''USD'' 0 = Inr ?calc" by simp
  have r1: "royalty_run ?calc ''P'' ''MFG'' ''2024-Q4'' ''USD'' (Suc 0) = Inr calc1"
    by (simp add: it)
  have a0: "cost_after ?calc ''P'' ''MFG'' ''2024-Q4'' ''USD'' 0 = 100"
    by (simp add: cost_after_def demo_current_total)
  have a1: "cost_after ?calc ''P'' ''MFG'' ''2024-Q4'' ''USD'' (Suc 0) = 104"
    unfolding cost_after_def r1 by (simp add: t1)
  have c0: "cost_change ?calc ''P'' ''MFG'' ''2024-Q4'' ''USD'' 0 = 100"
    by (simp add: cost_change_def cost_before_def a0)
  have c1: "cost_change ?calc ''P'' ''MFG'' ''2024-Q4'' ''USD'' (Suc 0) = 4"
    by (simp add: cost_change_def cost_before_def a0 a1)
  from resolveRoyaltyCycle_reports_convergence[where calc = ?calc and productId = "''P''"
      and entityId = "''MFG''" and period = "''2024-Q4''" and targetCurrency = "''USD''"
      and maxIterations = 1 and tolerance = "1 / 100"]
  obtain n where n: "n \<le> nat \<lceil>1 :: rat\<rceil>"
    and res: "case royalty_run ?calc ''P'' ''MFG'' ''2024-Q4'' ''USD'' n of
           Inl err \<Rightarrow>
             resolveRoyaltyCycle ?calc ''P'' ''MFG'' ''2024-Q4'' ''USD'' 1 (1 / 100) = Inl err
         | Inr calc_n \<Rightarrow>
             resolveRoyaltyCycle ?calc ''P'' ''MFG'' ''2024-Q4'' ''USD'' 1 (1 / 100)
               = Inr (\<lparr>converged = (cost_change ?calc ''P'' ''MFG'' ''2024-Q4'' ''USD'' n \<le> 1 / 100),
                       iterations = n,
                       finalCost = cost_after ?calc ''P'' ''MFG'' ''2024-Q4'' ''USD'' n\<rparr>, calc_n)
             \<and> (1 / 100 < cost_change ?calc ''P'' ''MFG'' ''2024-Q4'' ''USD'' n
                  \<longrightarrow> n = nat \<lceil>1 :: rat\<rceil>)"
    by blast
  have "n \<noteq> 0"
  proof
    assume "n = 0"
    then show False using res unfolding \<open>n = 0\<close> r0 by (simp add: c0)
  qed
  then have "n = Suc 0" using n by simp
  then show ?thesis using res unfolding \<open>n = Suc 0\<close> r1 by (simp add: c1 a1)
qed

text \<open>
  Claim C9 does not hold of every call: with a target currency for which no exchange rate is
  known the call raises the converter's error, and with the cap 3/2 the loop runs twice, so
  that \<open>iterations\<close> is greater than \<open>maxIterations\<close>.
\<close>

theorem resolveRoyaltyCycle_raises_or_overruns:
  "resolveRoyaltyCycle (demo_calc demo_rules) ''P'' ''MFG'' ''2024-Q4'' ''EUR'' 10 (1 / 100)
     = Inl (NoExchangeRate ''2024-Q4'')
   \<and> map_sum id (iterations \<circ> fst)
        (resolveRoyaltyCycle (demo_calc demo_rules) ''P'' ''MFG'' ''2024-Q4'' ''USD'' (3 / 2) (1 / 100))
     = Inr 2
   \<and> (3 / 2 :: rat) < of_nat 2"
proof -
  let ?calc = "demo_calc demo_rules"
  have "royalty_loop ''P'' ''MFG'' ''2024-Q4'' ''EUR'' 10 (1 / 100)
          0 (current_total ?calc ''P'' ''MFG'' ''2024-Q4'') 0 ?calc = Inl (NoExchangeRate ''2024-Q4'')"
    unfolding demo_current_total by (subst royalty_loop_step) (simp_all add: demo_no_rate)
  then have a: "resolveRoyaltyCycle ?calc ''P'' ''MFG'' ''2024-Q4'' ''EUR'' 10 (1 / 100)
     = Inl (NoExchangeRate ''2024-Q4'')"
    by (simp add: resolveRoyaltyCycle_def)
  obtain calc1 calc2 where
    i1: "royalty_iteration ?calc ''P'' ''MFG'' ''2024-Q4'' ''USD'' = Inr calc1"
    and t1: "current_total calc1 ''P'' ''MFG'' ''2024-Q4'' = 104"
    and i2: "royalty_iteration calc1 ''P'' ''MFG'' ''2024-Q4'' ''USD'' = Inr calc2"
    and t2: "current_total calc2 ''P'' ''MFG'' ''2024-Q4'' = 104"
    using demo_two_iterations by blast
  have "royalty_loop ''P'' ''MFG'' ''2024-Q4'' ''USD'' (3 / 2) (1 / 100)
          0 (current_total ?calc ''P'' ''MFG'' ''2024-Q4'') 0 ?calc
        = royalty_loop ''P'' ''MFG'' ''2024-Q4'' ''USD'' (3 / 2) (1 / 100) 100 104 (0 + 1) calc1"
    unfolding demo_current_total by (subst royalty_loop_step) (simp_all add: i1 t1)
  also have "\<dots> = royalty_loop ''P'' ''MFG'' ''2024-Q4'' ''USD'' (3 / 2) (1 / 100) 104 104 (0 + 1 + 1) calc2"
    by (subst royalty_loop_step) (simp_all add: i2 t2)
  also have "\<dots> = Inr (104, 104, 0 + 1 + 1, calc2)"
    by (rule royalty_loop_stop) simp
  finally have b: "map_sum id (iterations \<circ> fst)
        (resolveRoyaltyCycle ?calc ''P'' ''MFG'' ''2024-Q4'' ''USD'' (3 / 2) (1 / 100)) = Inr 2"
    by (simp add: resolveRoyaltyCycle_def)
  show ?thesis using a b by simp
qed


section \<open>Transfer pricing\<close>

lemma apply_hops_valid:
  "valid_steps g u steps \<Longrightarrow> \<exists>r. apply_hops em prev steps acc = Inr r"
proof (induction steps arbitrary: u prev acc)
  case Nil
  then show ?case by simp
next
  case (Cons step steps)
  obtain v e where s: "step = (v, e)" by (cases step)
  then obtain edge where e: "e = Some edge" and vs: "valid_steps g v steps"
    using Cons.prems by (cases e) auto
  show ?case using Cons.IH[OF vs] by (simp add: s e Let_def)
qed

lemma walk_path_found:
  assumes "path \<in> set (findTransferPaths em fromEntity toEntity)"
  shows "\<exists>r. walk_path em amt mfgId path = Inr r"
proof -
  have "simple_path (transferGraph em) fromEntity toEntity path"
    using assms findAllPaths_simple_paths[of "transferGraph em" fromEntity toEntity 10]
    by (auto simp: findTransferPaths_def)
  then obtain rest where "path = (fromEntity, None) # rest" "valid_steps (transferGraph em) fromEntity rest"
    by (auto simp: simple_path_def split: list.splits)
  then show ?thesis using apply_hops_valid[of "transferGraph em" fromEntity rest em]
    by (simp add: walk_path_def)
qed

lemma consider_path_walk:
  "consider_path calc productId period mfgId path best =
     (case getCost (costState calc) productId mfgId period of
        None \<Rightarrow> Inr best
      | Some sourceCost \<Rightarrow>
          (case walk_path (entityManager calc) (totalCost sourceCost) mfgId path of
             Inl e \<Rightarrow> Inl e
           | Inr r \<Rightarrow> Inr (take_better best (fst r, snd r, mfgId))))"
  by (auto simp: consider_path_def walk_path_def take_better_def split: option.splits sum.splits)

lemma consider_paths_fold:
  "\<forall>path \<in> set paths. \<forall>amt. \<exists>r. walk_path (entityManager calc) amt mfgId path = Inr r \<Longrightarrow>
   consider_paths calc productId period mfgId paths best
     = Inr (foldl take_better best (path_candidates calc productId period mfgId paths))"
proof (induction paths arbitrary: best)
  case Nil
  then show ?case by (simp add: path_candidates_def split: option.splits)
next
  case (Cons path paths)
  show ?case
  proof (cases "getCost (costState calc) productId mfgId period")
    case None
    then have "consider_path calc productId period mfgId path best = Inr best"
      by (simp add: consider_path_walk)
    moreover have "path_candidates calc productId period mfgId (path # paths) = []"
      "path_candidates calc productId period mfgId paths = []"
      using None by (simp_all add: path_candidates_def)
    ultimately show ?thesis using Cons.IH[of best] Cons.prems by simp
  next
    case (Some sourceCost)
    have "\<exists>r. walk_path (entityManager calc) (totalCost sourceCost) mfgId path = Inr r"
      using Cons.prems by simp
    then obtain r where r: "walk_path (entityManager calc) (totalCost sourceCost) mfgId path = Inr r"
      by blast
    have c: "consider_path calc productId period mfgId path best
             = Inr (take_better best (fst r, snd r, mfgId))"
      by (simp add: consider_path_walk Some r)
    have p: "path_candidates calc productId period mfgId (path # paths)
             = (fst r, snd r, mfgId) # path_candidates calc productId period mfgId paths"
      by (simp add: path_candidates_def Some r)
    show ?thesis using Cons.IH[of "take_better best (fst r, snd r, mfgId)"] Cons.prems
      by (simp add: c p)
  qed
qed

lemma consider_sources_fold:
  "consider_sources calc productId destEntityId period mfgs best
     = Inr (foldl take_better best
              (concat (map (\<lambda>mfgEntity. path_candidates calc productId period (ent_id mfgEntity)
                              (findTransferPaths (entityManager calc) (ent_id mfgEntity) destEntityId))
                           mfgs)))"
proof (induction mfgs arbitrary: best)
  case Nil
  then show ?case by simp
next
  case (Cons mfgEntity mfgs)
  have "\<forall>path \<in> set (findTransferPaths (entityManager calc) (ent_id mfgEntity) destEntityId).
          \<forall>amt. \<exists>r. walk_path (entityManager calc) amt (ent_id mfgEntity) path = Inr r"
    using walk_path_found by blast
  from consider_paths_fold[OF this] show ?case using Cons.IH by simp
qed






lemma candidates_empty:
  assumes "\<forall>mfgEntity \<in> set (getManufacturingEntities (entityManager calc)).
             getCost (costState calc) productId (ent_id mfgEntity) period = None
             \<or> findTransferPaths (entityManager calc) (ent_id mfgEntity) destEntityId = []"
  shows "transfer_candidates calc productId destEntityId period = []"
  using assms by (auto simp: transfer_candidates_def path_candidates_def split: option.splits)

lemma calculateTransferPrice_fold:
  assumes "getEntity (entityManager calc) destEntityId = Some destEntity"
    and "ent_type destEntity = ''distribution''"
  shows "calculateTransferPrice calc productId destEntityId period targetCurrency =
     (let best = foldl take_better \<lparr>bestCost = None, bestPath = None, bestSourceEntity = None\<rparr>
                   (transfer_candidates calc productId destEntityId period)
      in case (bestCost best, bestPath best, bestSourceEntity best) of
           (Some bc, Some bp, Some src) \<Rightarrow>
             (case getCost (costState calc) productId src period of
                None \<Rightarrow> Inl TypeError
              | Some sourceCost \<Rightarrow>
                  Inr (calc\<lparr>costState :=
                         setCost productId destEntityId period
                           (transfer_breakdown sourceCost bc src bp) (costState calc)\<rparr>))
         | _ \<Rightarrow> Inr calc)"
  using assms
  by (simp add: calculateTransferPrice_def consider_sources_fold transfer_candidates_def Let_def)



lemma calculateTransferPrice_without_path_aux:
  assumes "\<forall>mfgEntity \<in> set (getManufacturingEntities (entityManager calc)).
             getCost (costState calc) productId (ent_id mfgEntity) period = None
             \<or> findTransferPaths (entityManager calc) (ent_id mfgEntity) destEntityId = []"
  shows "calculateTransferPrice calc productId destEntityId period targetCurrency = Inr calc"
proof (cases "getEntity (entityManager calc) destEntityId")
  case None
  then show ?thesis by (simp add: calculateTransferPrice_def)
next
  case (Some destEntity)
  show ?thesis
  proof (cases "ent_type destEntity = ''distribution''")
    case False
    then show ?thesis using Some by (simp add: calculateTransferPrice_def)
  next
    case True
    show ?thesis
      unfolding calculateTransferPrice_fold[OF Some True] candidates_empty[OF assms]
      by simp
  qed
qed

text \<open>
  Claim C8, without the warning.  When every manufacturing entity either has no stored cost
  or has no transfer path to the destination, \<open>calculateTransferPrice\<close> returns without an
  error and leaves the calculator as it is: no cost is stored for the destination, and
  nothing is added to the list of warnings.
\<close>

theorem calculateTransferPrice_without_path:
  assumes "\<forall>mfgEntity \<in> set (getManufacturingEntities (entityManager calc)).
             getCost (costState calc) productId (ent_id mfgEntity) period = None
             \<or> findTransferPaths (entityManager calc) (ent_id mfgEntity) destEntityId = []"
  shows "calculateTransferPrice calc productId destEntityId period targetCurrency = Inr calc"
  by (rule calculateTransferPrice_without_path_aux[OF assms])

lemma demo_entityManager:
  "entityManager (demo_calc rs) = new_EntityManager demo_entities demo_routes"
  by (simp add: demo_calc_def)

lemma demo_manufacturing:
  "getManufacturingEntities (new_EntityManager demo_entities demo_routes)
     = [\<lparr>ent_id = ''MFG'', ent_type = ''manufacturing'', ent_country = ''CN'', ent_currency = ''USD''\<rparr>]"
  by (simp add: demo_entities_def new_EntityManager_def getManufacturingEntities_def
      getAllEntities_def Let_def)

lemma demo_graph_built:
  "transferGraph (new_EntityManager demo_entities demo_routes)
     = addEdge ''IP'' ''MFG''
         \<lparr>re_itemTypes = [''royalty''], re_markupType = ''revenue-percent'', re_markupValue = 1 / 25\<rparr>
        (addEdge ''HUB'' ''DIST''
           \<lparr>re_itemTypes = [''finished-good''], re_markupType = ''cost-plus'', re_markupValue = 1 / 10\<rparr>
        (addEdge ''MFG'' ''HUB''
           \<lparr>re_itemTypes = [''finished-good''], re_markupType = ''cost-plus'', re_markupValue = 1 / 10\<rparr>
        (addEdge ''MFG'' ''DIST''
           \<lparr>re_itemTypes = [''finished-good''], re_markupType = ''cost-plus'', re_markupValue = 1 / 2\<rparr>
        (addNode ''IP'' (addNode ''ISLE'' (addNode ''DIST'' (addNode ''HUB''
           (addNode ''MFG'' new_Graph))))))))"
  by (simp add: demo_entities_def demo_routes_def new_EntityManager_def Let_def)

lemma demo_graph:
  "transferGraph (new_EntityManager demo_entities demo_routes)
     = [(''MFG'',
         [(''DIST'', \<lparr>re_itemTypes = [''finished-good''], re_markupType = ''cost-plus'',
                        re_markupValue = 1 / 2\<rparr>),
          (''HUB'', \<lparr>re_itemTypes = [''finished-good''], re_markupType = ''cost-plus'',
                       re_markupValue = 1 / 10\<rparr>)]),
        (''HUB'',
         [(''DIST'', \<lparr>re_itemTypes = [''finished-good''], re_markupType = ''cost-plus'',
                        re_markupValue = 1 / 10\<rparr>)]),
        (''DIST'', []),
        (''ISLE'', []),
        (''IP'',
         [(''MFG'', \<lparr>re_itemTypes = [''royalty''], re_markupType = ''revenue-percent'',
                       re_markupValue = 1 / 25\<rparr>)])]"
  unfolding demo_graph_built
  by (simp add: addEdge_def addNode_def map_has_def getNeighbors_def new_Graph_def Let_def)


lemma demo_paths_ISLE:
  "findTransferPaths (new_EntityManager demo_entities demo_routes) ''MFG'' ''ISLE'' = []"
  unfolding findTransferPaths_def demo_graph
  by (simp add: findAllPaths_def findAllPaths_dfs.simps getNeighbors_def)






theorem calculateTransferPrice_without_path_witness:
  "findTransferPaths (entityManager (demo_calc demo_rules)) ''MFG'' ''ISLE'' = []
   \<and> calculateTransferPrice (demo_calc demo_rules) ''P'' ''ISLE'' ''2024-Q4'' ''USD''
       = Inr (demo_calc demo_rules)"
proof -
  have h: "\<forall>mfgEntity \<in> set (getManufacturingEntities (entityManager (demo_calc demo_rules))).
             getCost (costState (demo_calc demo_rules)) ''P'' (ent_id mfgEntity) ''2024-Q4'' = None
             \<or> findTransferPaths (entityManager (demo_calc demo_rules)) (ent_id mfgEntity) ''ISLE'' = []"
    by (simp add: demo_entityManager demo_manufacturing demo_paths_ISLE)
  show ?thesis
    using calculateTransferPrice_without_path[OF h, of "''USD''"] demo_paths_ISLE
    by (simp add: demo_entityManager)
qed

text \<open>
  Claim C8 asks for a warning.  \<open>ISLE\<close> is a distribution entity that no route leads to; the
  call for it returns, stores no cost, and the list of warnings is as empty as before.
\<close>

theorem calculateTransferPrice_no_warning:
  "getDistributionEntities (entityManager (demo_calc demo_rules))
     = [\<lparr>ent_id = ''DIST'', ent_type = ''distribution'', ent_country = ''US'', ent_currency = ''USD''\<rparr>,
        \<lparr>ent_id = ''ISLE'', ent_type = ''distribution'', ent_country = ''US'', ent_currency = ''USD''\<rparr>]
   \<and> findTransferPaths (entityManager (demo_calc demo_rules)) ''MFG'' ''ISLE'' = []
   \<and> map_sum id (\<lambda>calc'. (getCost (costState calc') ''P'' ''ISLE'' ''2024-Q4'', warnings calc'))
        (calculateTransferPrice (demo_calc demo_rules) ''P'' ''ISLE'' ''2024-Q4'' ''USD'')
       = Inr (None, [])"
proof -
  have h: "\<forall>mfgEntity \<in> set (getManufacturingEntities (entityManager (demo_calc demo_rules))).
             getCost (costState (demo_calc demo_rules)) ''P'' (ent_id mfgEntity) ''2024-Q4'' = None
             \<or> findTransferPaths (entityManager (demo_calc demo_rules)) (ent_id mfgEntity) ''ISLE'' = []"
    by (simp add: demo_entityManager demo_manufacturing demo_paths_ISLE)
  have "calculateTransferPrice (demo_calc demo_rules) ''P'' ''ISLE'' ''2024-Q4'' ''USD''
       = Inr (demo_calc demo_rules)"
    by (rule calculateTransferPrice_without_path_aux[OF h])
  moreover have "getCost (costState (demo_calc demo_rules)) ''P'' ''ISLE'' ''2024-Q4'' = None"
    "warnings (demo_calc demo_rules) = []"
    by (simp_all add: demo_calc_def getCost_def setCost_def getCostKey_def new_CostState_def Let_def)
  moreover have "getDistributionEntities (entityManager (demo_calc demo_rules))
     = [\<lparr>ent_id = ''DIST'', ent_type = ''distribution'', ent_country = ''US'', ent_currency = ''USD''\<rparr>,
        \<lparr>ent_id = ''ISLE'', ent_type = ''distribution'', ent_country = ''US'', ent_currency = ''USD''\<rparr>]"
    unfolding demo_entityManager
    by (simp add: demo_entities_def new_EntityManager_def getDistributionEntities_def
        getAllEntities_def Let_def)
  ultimately show ?thesis using demo_paths_ISLE by (simp add: demo_entityManager)
qed


section \<open>The total cost of a record\<close>








lemma getCost_setRuleOutput:
  "getCost (setRuleOutput ruleId productId' entityId' period' out st) productId entityId period
     = getCost st productId entityId period"
  by (simp add: getCost_def setRuleOutput_def)


















end
